theory Spec2Isabelle
  imports Complex_Main "HOL-Library.Multiset"
begin

unbundle bit_operations_syntax

section \<open>Data model\<close>

text \<open>
  The rewrite node of \<^verbatim>\<open>src/nodes/rule.ts\<close> (class \<^verbatim>\<open>RuleNode\<close>) and the data it works on.
  JavaScript numbers that hold coordinates, counters and indices are \<open>int\<close> or \<open>nat\<close>;
  typed arrays are lists. A result \<open>None\<close> of an operation means that the source does not
  return normally there (it throws, or a loop never ends).
\<close>

datatype RunState = SUCCESS | FAIL | HALT

type_synonym cell = "int \<times> int \<times> int"

text \<open>
  Modelled from the spec: the class \<^verbatim>\<open>Grid\<close> is not among the sources. Its attributes are
  those of section 3 of the specification: the dimensions, the alphabet size \<open>C\<close>, the
  symbols, the inverse mapping from code point to value, and the state array.
\<close>

record grid =
  MX :: int
  MY :: int
  MZ :: int
  C :: nat
  characters :: string
  values_map :: "nat \<rightharpoonup> nat"
  state :: "nat list"

text \<open>
  Modelled from the spec: the class \<^verbatim>\<open>Rule\<close> is not among the sources. The node reads the
  input box dimensions, the input bitmasks, the table \<^verbatim>\<open>ishifts\<close> and writes the flag
  \<^verbatim>\<open>original\<close>.
\<close>

record rule =
  IMX :: int
  IMY :: int
  IMZ :: int
  input :: "nat list"
  ishifts :: "cell list list"
  original :: bool

text \<open>
  Modelled from the spec: the class \<^verbatim>\<open>Field\<close> is not among the sources; \<^verbatim>\<open>run\<close> reads its
  two flags.
\<close>

record Field =
  recompute :: bool
  essential :: bool

text \<open>The part of the interpreter that the node reads through \<^verbatim>\<open>this.ip\<close>.\<close>

record 'r interp =
  changes :: "cell list"
  first :: "nat list"
  rng :: 'r

text \<open>What \<^verbatim>\<open>Generator.next()\<close> returns: a yielded number, or the returned value.\<close>

datatype 't iter_result = Yield int | Return 't

text \<open>
  The fields of \<^verbatim>\<open>RuleNode\<close>. \<open>'o\<close> is the class \<^verbatim>\<open>Observation\<close>, \<open>'p\<close> and \<open>'a\<close> are the
  \<^verbatim>\<open>Array2D\<close> of potentials and of the trajectory, \<open>'g\<close> is the search generator. The
  field \<^verbatim>\<open>last\<close> is \<open>last_fired\<close> here and \<^verbatim>\<open>fields\<close> is \<open>fields_arr\<close>; \<open>isAllNode\<close> is
  \<^verbatim>\<open>this instanceof AllNode\<close>.
  \<^verbatim>\<open>matchMask\<close> is a \<^verbatim>\<open>BoolArray2D\<close>: one bit per rule and cell index.
\<close>

record ('o, 'p, 'g, 'a) node =
  rules :: "rule list"
  counter :: int
  steps :: int
  matches :: "nat list"
  matchCount :: nat
  lastMatchedTurn :: int
  matchMask :: "nat \<Rightarrow> int \<Rightarrow> bool"
  potentials :: "'p option"
  fields_arr :: "Field option list option"
  observations :: "'o option list option"
  temperature :: real
  search :: bool
  futureComputed :: bool
  future :: "int list"
  trajectory :: "'a option"
  limit :: int
  depthCoefficient :: real
  last_fired :: "nat list"
  visited :: int
  searching :: "'g option"
  searchTries :: nat
  isAllNode :: bool

text \<open>
  The operations of classes that are not among the sources (\<^verbatim>\<open>Observation\<close>, \<^verbatim>\<open>Search\<close>,
  \<^verbatim>\<open>Field\<close>, \<^verbatim>\<open>Array2D\<close>, the random number generator and the generator protocol) are
  parameters of \<^verbatim>\<open>run\<close>. An operation that writes into an array it is given returns the
  new array. \<open>Field_compute env f c p g\<close> is \<^verbatim>\<open>f.compute(p.row(c), g)\<close>. The potentials
  handed to \<^verbatim>\<open>computeBackwardPotentials\<close> may be \<^verbatim>\<open>undefined\<close> (\<open>None\<close>).
\<close>

record ('o, 'p, 'g, 't, 'a, 'r) run_env =
  computeFutureSetPresent :: "int list \<Rightarrow> nat list \<Rightarrow> 'o option list \<Rightarrow> bool \<times> int list"
  computeBackwardPotentials :: "'p option \<Rightarrow> int list \<Rightarrow> int \<Rightarrow> int \<Rightarrow> int \<Rightarrow> rule list \<Rightarrow> 'p option"
  Search_run :: "nat list \<Rightarrow> int list \<Rightarrow> rule list \<Rightarrow> int \<Rightarrow> int \<Rightarrow> int \<Rightarrow> nat \<Rightarrow> bool
                  \<Rightarrow> int \<Rightarrow> real \<Rightarrow> int \<Rightarrow> 'g"
  gen_next :: "'g \<Rightarrow> 't iter_result \<times> 'g"
  Array2D_from :: "'t \<Rightarrow> 'a option"
  rng_int32 :: "'r \<Rightarrow> int \<times> 'r"
  Field_compute :: "Field \<Rightarrow> nat \<Rightarrow> 'p \<Rightarrow> grid \<Rightarrow> bool \<times> 'p"

section \<open>Loops\<close>

text \<open>A \<^verbatim>\<open>for ... of\<close> loop over a list whose body may throw.\<close>

fun for_each :: "('x \<Rightarrow> 's \<Rightarrow> 's option) \<Rightarrow> 'x list \<Rightarrow> 's \<Rightarrow> 's option" where
  "for_each body [] s = Some s"
| "for_each body (x # xs) s =
     (case body x s of None \<Rightarrow> None | Some s' \<Rightarrow> for_each body xs s')"

text \<open>
  The loop \<^verbatim>\<open>for (let x = x0; x < m; x += d)\<close>. With \<open>d \<le> 0\<close> the loop variable never
  reaches \<open>m\<close>, so the loop has no normal exit.
\<close>

function for_stride :: "int \<Rightarrow> int \<Rightarrow> int \<Rightarrow> (int \<Rightarrow> 's \<Rightarrow> 's option) \<Rightarrow> 's \<Rightarrow> 's option" where
  "for_stride x m d body s =
     (if x < m then
        (if d \<le> 0 then None
         else case body x s of None \<Rightarrow> None | Some s' \<Rightarrow> for_stride (x + d) m d body s')
      else Some s)"
  by pat_completeness auto
termination
  by (relation "measure (\<lambda>(x, m, d, body, s). nat (m - x))") auto

declare for_stride.simps [simp del]

section \<open>The matcher\<close>

text \<open>
  Modelled from the spec: \<^verbatim>\<open>Grid.matches\<close> is not among the sources. Section 4.1: true iff
  for every input cell \<open>(i, j, k)\<close> of the rule,
  \<^verbatim>\<open>rule.input[i+j*IMX+k*IMX*IMY] & (1 << state[(x+i)+(y+j)*MX+(z+k)*MX*MY])\<close> is nonzero.
\<close>

definition grid_matches :: "grid \<Rightarrow> rule \<Rightarrow> int \<Rightarrow> int \<Rightarrow> int \<Rightarrow> bool" where
  "grid_matches g rule x y z =
     list_all (\<lambda>k. list_all (\<lambda>j. list_all (\<lambda>i.
         (input rule ! nat (i + j * IMX rule + k * IMX rule * IMY rule))
           AND push_bit (state g ! nat ((x + i) + (y + j) * MX g + (z + k) * MX g * MY g)) 1 \<noteq> 0)
       [0..IMX rule - 1]) [0..IMY rule - 1]) [0..IMZ rule - 1]"

text \<open>
  Modelled from the spec: the table \<^verbatim>\<open>ishifts\<close> is built by the class \<^verbatim>\<open>Rule\<close>. Section 3:
  \<^verbatim>\<open>ishifts[v]\<close> is, for each value \<open>v\<close> below \<open>C\<close>, the list of the offsets within the input
  pattern at which \<open>v\<close> appears. \<open>shifts_of\<close> lists these offsets, and \<open>ishifts_ok\<close> says
  that the table holds them, each once, in any order.
\<close>

definition shifts_of :: "rule \<Rightarrow> nat \<Rightarrow> cell list" where
  "shifts_of rule v =
     concat (map (\<lambda>z. concat (map (\<lambda>y. concat (map (\<lambda>x.
         if (input rule ! nat (x + y * IMX rule + z * IMX rule * IMY rule)) AND push_bit v 1 \<noteq> 0
         then [(x, y, z)] else [])
       [0..IMX rule - 1])) [0..IMY rule - 1])) [0..IMZ rule - 1])"

definition ishifts_ok :: "nat \<Rightarrow> rule \<Rightarrow> bool" where
  "ishifts_ok c rule \<longleftrightarrow>
     length (ishifts rule) = c \<and>
     list_all (\<lambda>v. distinct (ishifts rule ! v) \<and> set (ishifts rule ! v) = set (shifts_of rule v))
       [0..<c]"

text \<open>Reads that give \<^verbatim>\<open>undefined\<close> out of range.\<close>

definition state_at :: "grid \<Rightarrow> int \<Rightarrow> nat option" where
  "state_at g i = (if 0 \<le> i \<and> i < int (length (state g)) then Some (state g ! nat i) else None)"

text \<open>
  \<^verbatim>\<open>rule.ishifts[value]\<close>, to be iterated: iterating \<^verbatim>\<open>undefined\<close> throws a TypeError.
\<close>

definition shifts_at :: "rule \<Rightarrow> nat option \<Rightarrow> cell list option" where
  "shifts_at rule v =
     (case v of None \<Rightarrow> None
      | Some c \<Rightarrow> if c < length (ishifts rule) then Some (ishifts rule ! c) else None)"

definition first_at :: "'r interp \<Rightarrow> int \<Rightarrow> nat option" where
  "first_at ip t = (if 0 \<le> t \<and> t < int (length (first ip)) then Some (first ip ! nat t) else None)"

text \<open>The bounds test of both scans (the condition of \<^verbatim>\<open>continue\<close>).\<close>

definition out_of_bounds :: "grid \<Rightarrow> rule \<Rightarrow> int \<Rightarrow> int \<Rightarrow> int \<Rightarrow> bool" where
  "out_of_bounds g rule sx sy sz \<longleftrightarrow>
     sx < 0 \<or> sy < 0 \<or> sz < 0 \<or>
     sx + IMX rule > MX g \<or> sy + IMY rule > MY g \<or> sz + IMZ rule > MZ g"

subsection \<open>add\<close>

text \<open>
  A store into a \<^verbatim>\<open>Uint32Array\<close> keeps the value modulo \<open>2^32\<close> and is ignored out of
  range. \<^verbatim>\<open>a << k\<close> is the product with \<open>2^k\<close> wrapped to a signed 32-bit integer.
\<close>

definition u32 :: "int \<Rightarrow> nat" where
  "u32 v = nat (v mod 4294967296)"

definition int32 :: "int \<Rightarrow> int" where
  "int32 v = (let m = v mod 4294967296 in if m < 2147483648 then m else m - 4294967296)"

definition shl :: "int \<Rightarrow> nat \<Rightarrow> int" where
  "shl a k = int32 (a * 2 ^ k)"

definition ta_set :: "nat list \<Rightarrow> int \<Rightarrow> nat \<Rightarrow> nat list" where
  "ta_set a i v = (if 0 \<le> i \<and> i < int (length a) then a[nat i := v] else a)"

definition write_match :: "nat list \<Rightarrow> int \<Rightarrow> nat \<Rightarrow> int \<Rightarrow> int \<Rightarrow> int \<Rightarrow> nat list" where
  "write_match buf offset r x y z =
     ta_set (ta_set (ta_set (ta_set buf offset (u32 (int r))) (offset + 1) (u32 x))
        (offset + 2) (u32 y)) (offset + 3) (u32 z)"

text \<open>
  \<^verbatim>\<open>add(r, x, y, z, maskr)\<close>, where \<^verbatim>\<open>maskr\<close> is row \<open>r\<close> of \<^verbatim>\<open>matchMask\<close>. The new buffer
  has \<^verbatim>\<open>(old.length + 4) << 1\<close> elements; when that shift wraps, the allocation or the
  copy of the old buffer throws a RangeError.
\<close>

definition add ::
  "grid \<Rightarrow> nat \<Rightarrow> int \<Rightarrow> int \<Rightarrow> int \<Rightarrow> ('o, 'p, 'g, 'a) node \<Rightarrow> ('o, 'p, 'g, 'a) node option" where
  "add g r x y z n =
     (let mask' = (matchMask n)(r := (matchMask n r)(x + y * MX g + z * MX g * MY g := True));
          offset = shl (int (matchCount n)) 2;
          old = matches n
      in if offset + 4 < int (length old) then
           Some (n\<lparr>matchMask := mask', matches := write_match old offset r x y z,
                  matchCount := matchCount n + 1\<rparr>)
         else
           (let len = shl (int (length old) + 4) 1
            in if len < int (length old) then None
               else Some (n\<lparr>matchMask := mask',
                            matches := write_match (old @ replicate (nat len - length old) 0)
                                         offset r x y z,
                            matchCount := matchCount n + 1\<rparr>)))"

subsection \<open>Full and incremental rescan\<close>

text \<open>The body of the loops over one visited cell in the full rescan (lines 316 to 335).\<close>

definition scan_cell ::
  "grid \<Rightarrow> nat \<Rightarrow> rule \<Rightarrow> int \<Rightarrow> int \<Rightarrow> int \<Rightarrow> ('o, 'p, 'g, 'a) node \<Rightarrow> ('o, 'p, 'g, 'a) node option" where
  "scan_cell g r rule x y z n =
     (case shifts_at rule (state_at g (x + y * MX g + z * MX g * MY g)) of
        None \<Rightarrow> None
      | Some shifts \<Rightarrow>
          for_each (\<lambda>(shiftx, shifty, shiftz) n.
             let sx = x - shiftx; sy = y - shifty; sz = z - shiftz
             in if out_of_bounds g rule sx sy sz then Some n
                else if grid_matches g rule sx sy sz then add g r sx sy sz n
                else Some n) shifts n)"

text \<open>The full rescan (lines 309 to 337).\<close>

definition full_rescan :: "grid \<Rightarrow> ('o, 'p, 'g, 'a) node \<Rightarrow> ('o, 'p, 'g, 'a) node option" where
  "full_rescan g n =
     for_each (\<lambda>r n.
        let rule = rules n ! r
        in for_stride (IMZ rule - 1) (MZ g) (IMZ rule) (\<lambda>z.
             for_stride (IMY rule - 1) (MY g) (IMY rule) (\<lambda>y.
               for_stride (IMX rule - 1) (MX g) (IMX rule) (\<lambda>x.
                 scan_cell g r rule x y z))) n)
       [0..<length (rules n)] (n\<lparr>matchCount := 0\<rparr>)"

text \<open>The body of the loop over the rules for one changed cell (lines 284 to 305).\<close>

definition scan_change ::
  "grid \<Rightarrow> nat \<Rightarrow> rule \<Rightarrow> int \<Rightarrow> int \<Rightarrow> int \<Rightarrow> nat option \<Rightarrow> ('o, 'p, 'g, 'a) node
     \<Rightarrow> ('o, 'p, 'g, 'a) node option" where
  "scan_change g r rule x y z val n =
     (case shifts_at rule val of
        None \<Rightarrow> None
      | Some shifts \<Rightarrow>
          for_each (\<lambda>(shiftx, shifty, shiftz) n.
             let sx = x - shiftx; sy = y - shifty; sz = z - shiftz
             in if out_of_bounds g rule sx sy sz then Some n
                else (let si = sx + sy * MX g + sz * MX g * MY g
                      in if \<not> matchMask n r si \<and> grid_matches g rule sx sy sz
                         then add g r sx sy sz n else Some n)) shifts n)"

text \<open>
  The incremental rescan (lines 275 to 307). When \<^verbatim>\<open>ip.first[lastMatchedTurn]\<close> is
  \<^verbatim>\<open>undefined\<close> the loop condition is false at once.
\<close>

definition incremental_rescan ::
  "grid \<Rightarrow> 'r interp \<Rightarrow> ('o, 'p, 'g, 'a) node \<Rightarrow> ('o, 'p, 'g, 'a) node option" where
  "incremental_rescan g ip n =
     (case first_at ip (lastMatchedTurn n) of
        None \<Rightarrow> Some n
      | Some f \<Rightarrow>
          for_each (\<lambda>(x, y, z) n.
             let val = state_at g (x + y * MX g + z * MX g * MY g)
             in for_each (\<lambda>r n. scan_change g r (rules n ! r) x y z val n)
                  [0..<length (rules n)] n)
            (drop f (changes ip)) n)"

text \<open>The refresh of the matches in \<^verbatim>\<open>run\<close> (lines 274 to 338).\<close>

definition refresh_matches ::
  "grid \<Rightarrow> 'r interp \<Rightarrow> ('o, 'p, 'g, 'a) node \<Rightarrow> ('o, 'p, 'g, 'a) node option" where
  "refresh_matches g ip n =
     (if lastMatchedTurn n \<ge> 0 then incremental_rescan g ip n else full_rescan g n)"

section \<open>run\<close>

text \<open>
  The loop that resumes the search generator (lines 250 to 253): \<open>k\<close> iterations are left.
\<close>

fun resume_loop ::
  "('g \<Rightarrow> 't iter_result \<times> 'g) \<Rightarrow> nat \<Rightarrow> 't iter_result \<Rightarrow> 'g \<Rightarrow> 't iter_result \<times> 'g" where
  "resume_loop nxt 0 result gen = (result, gen)"
| "resume_loop nxt (Suc k) result gen =
     (case nxt gen of
        (Return v, gen') \<Rightarrow> (Return v, gen')
      | (Yield v, gen') \<Rightarrow> resume_loop nxt k (Yield v) gen')"

text \<open>Lines 249 to 253: one \<^verbatim>\<open>next()\<close> before the loop, then the loop.\<close>

definition resume :: "('g \<Rightarrow> 't iter_result \<times> 'g) \<Rightarrow> 'g \<Rightarrow> 't iter_result \<times> 'g" where
  "resume nxt gen = (case nxt gen of (result, gen') \<Rightarrow> resume_loop nxt 256 result gen')"

text \<open>
  Lines 221 to 247: when no generator is stored, compute the future set and start the
  search. The result \<open>Inl n'\<close> is the early \<^verbatim>\<open>return RunState.FAIL\<close>.
\<close>

definition start_search ::
  "('o, 'p, 'g, 't, 'a, 'r) run_env \<Rightarrow> grid \<Rightarrow> 'r interp \<Rightarrow> 'o option list \<Rightarrow> ('o, 'p, 'g, 'a) node
     \<Rightarrow> ('o, 'p, 'g, 'a) node + ('g \<times> ('o, 'p, 'g, 'a) node \<times> 'r interp)" where
  "start_search env g ip obs n =
     (case searching n of
        Some gen \<Rightarrow> Inr (gen, n, ip)
      | None \<Rightarrow>
          (case computeFutureSetPresent env (future n) (state g) obs of
             (ok, fut) \<Rightarrow>
               if \<not> ok then Inl (n\<lparr>future := fut\<rparr>)
               else (case rng_int32 env (rng ip) of
                       (seed, rng') \<Rightarrow>
                         (let gen = Search_run env (state g) fut (rules n) (MX g) (MY g) (MZ g)
                                      (C g) (isAllNode n) (limit n) (depthCoefficient n) seed
                          in Inr (gen, n\<lparr>future := fut, trajectory := None,
                                          searching := Some gen\<rparr>,
                                  ip\<lparr>rng := rng'\<rparr>)))))"

text \<open>
  Lines 199 to 272. The first component of the result is the state that \<^verbatim>\<open>run\<close> returns
  from inside this block, or \<open>None\<close> when \<^verbatim>\<open>run\<close> goes on to the refresh of the matches.
\<close>

definition observe ::
  "('o, 'p, 'g, 't, 'a, 'r) run_env \<Rightarrow> grid \<Rightarrow> 'r interp \<Rightarrow> ('o, 'p, 'g, 'a) node
     \<Rightarrow> (RunState option \<times> ('o, 'p, 'g, 'a) node \<times> 'r interp) option" where
  "observe env g ip n =
     (case observations n of
        None \<Rightarrow> Some (None, n, ip)
      | Some obs \<Rightarrow>
          if futureComputed n then Some (None, n, ip)
          else if \<not> search n then
            (case computeFutureSetPresent env (future n) (state g) obs of
               (ok, fut) \<Rightarrow>
                 if \<not> ok then Some (Some FAIL, n\<lparr>future := fut\<rparr>, ip)
                 else Some (None,
                            n\<lparr>future := fut, futureComputed := True,
                              potentials := computeBackwardPotentials env (potentials n) fut
                                              (MX g) (MY g) (MZ g) (rules n)\<rparr>,
                            ip))
          else
            (case start_search env g ip obs n of
               Inl n' \<Rightarrow> Some (Some FAIL, n', ip)
             | Inr (gen, n1, ip1) \<Rightarrow>
                 (case resume (gen_next env) gen of
                    (Yield v, gen') \<Rightarrow>
                      Some (Some HALT, n1\<lparr>searching := Some gen', visited := v\<rparr>, ip1)
                  | (Return v, gen') \<Rightarrow>
                      (case Array2D_from env v of
                         None \<Rightarrow>
                           Some (Some FAIL,
                                 n1\<lparr>searching := None, trajectory := None,
                                    searchTries := searchTries n1 + 1\<rparr>, ip1)
                       | Some tr \<Rightarrow>
                           Some (None,
                                 n1\<lparr>searching := None, trajectory := Some tr,
                                    futureComputed := True\<rparr>, ip1)))))"

text \<open>
  The loop over the fields (lines 344 to 352), from index \<open>c\<close> on. The result is \<open>Inl\<close>
  for the \<^verbatim>\<open>return RunState.FAIL\<close> inside the loop, and otherwise the two flags. The last
  component records the calls of \<^verbatim>\<open>compute\<close>: the index of the field and the result.
\<close>

fun fields_loop ::
  "('o, 'p, 'g, 't, 'a, 'r) run_env \<Rightarrow> grid \<Rightarrow> int \<Rightarrow> Field option list \<Rightarrow> nat \<Rightarrow> bool \<Rightarrow> bool
     \<Rightarrow> 'p option \<Rightarrow> (nat \<times> bool) list
     \<Rightarrow> ((unit + bool \<times> bool) \<times> 'p option \<times> (nat \<times> bool) list) option" where
  "fields_loop env g cnt [] c anysuccess anycomputation pot cs =
     Some (Inr (anysuccess, anycomputation), pot, cs)"
| "fields_loop env g cnt (fo # fs) c anysuccess anycomputation pot cs =
     (case fo of
        None \<Rightarrow> fields_loop env g cnt fs (c + 1) anysuccess anycomputation pot cs
      | Some f \<Rightarrow>
          if cnt = 0 \<or> recompute f then
            (case pot of
               None \<Rightarrow> None
             | Some p \<Rightarrow>
                 (case Field_compute env f c p g of
                    (success, p') \<Rightarrow>
                      if \<not> success \<and> essential f then Some (Inl (), Some p', cs @ [(c, success)])
                      else fields_loop env g cnt fs (c + 1) (anysuccess \<or> success) True
                             (Some p') (cs @ [(c, success)])))
          else fields_loop env g cnt fs (c + 1) anysuccess anycomputation pot cs)"

text \<open>Lines 340 to 356.\<close>

definition run_fields ::
  "('o, 'p, 'g, 't, 'a, 'r) run_env \<Rightarrow> grid \<Rightarrow> ('o, 'p, 'g, 'a) node
     \<Rightarrow> (RunState \<times> ('o, 'p, 'g, 'a) node \<times> (nat \<times> bool) list) option" where
  "run_fields env g n =
     (case fields_arr n of
        None \<Rightarrow> Some (SUCCESS, n, [])
      | Some fs \<Rightarrow>
          (case fields_loop env g (counter n) fs 0 False False (potentials n) [] of
             None \<Rightarrow> None
           | Some (Inl u, pot, cs) \<Rightarrow> Some (FAIL, n\<lparr>potentials := pot\<rparr>, cs)
           | Some (Inr (anysuccess, anycomputation), pot, cs) \<Rightarrow>
               if anycomputation \<and> \<not> anysuccess then Some (FAIL, n\<lparr>potentials := pot\<rparr>, cs)
               else Some (SUCCESS, n\<lparr>potentials := pot\<rparr>, cs)))"

text \<open>
  \<^verbatim>\<open>run()\<close> after the test of the step limit (lines 196 to 356). \<open>run_traced\<close> also gives
  the record of the calls of \<^verbatim>\<open>compute\<close> on the fields.
\<close>

definition run_body ::
  "('o, 'p, 'g, 't, 'a, 'r) run_env \<Rightarrow> grid \<Rightarrow> 'r interp \<Rightarrow> ('o, 'p, 'g, 'a) node
     \<Rightarrow> (RunState \<times> ('o, 'p, 'g, 'a) node \<times> 'r interp \<times> (nat \<times> bool) list) option" where
  "run_body env g ip n =
     (case observe env g ip n of
        None \<Rightarrow> None
      | Some (Some st, n1, ip1) \<Rightarrow> Some (st, n1, ip1, [])
      | Some (None, n1, ip1) \<Rightarrow>
          (case refresh_matches g ip1 n1 of
             None \<Rightarrow> None
           | Some n2 \<Rightarrow>
               (case run_fields env g n2 of
                  None \<Rightarrow> None
                | Some (st, n3, cs) \<Rightarrow> Some (st, n3, ip1, cs))))"

definition run_traced ::
  "('o, 'p, 'g, 't, 'a, 'r) run_env \<Rightarrow> grid \<Rightarrow> 'r interp \<Rightarrow> ('o, 'p, 'g, 'a) node
     \<Rightarrow> (RunState \<times> ('o, 'p, 'g, 'a) node \<times> 'r interp \<times> (nat \<times> bool) list) option" where
  "run_traced env g ip n =
     (let n0 = n\<lparr>last_fired := replicate (length (last_fired n)) 0\<rparr>
      in if steps n0 > 0 \<and> counter n0 \<ge> steps n0 then Some (FAIL, n0, ip, [])
         else run_body env g ip n0)"

text \<open>\<^verbatim>\<open>run()\<close>: the state returned, the node and the interpreter afterwards.\<close>

definition run ::
  "('o, 'p, 'g, 't, 'a, 'r) run_env \<Rightarrow> grid \<Rightarrow> 'r interp \<Rightarrow> ('o, 'p, 'g, 'a) node
     \<Rightarrow> (RunState \<times> ('o, 'p, 'g, 'a) node \<times> 'r interp) option" where
  "run env g ip n =
     (case run_traced env g ip n of
        None \<Rightarrow> None
      | Some (st, n', ip', cs) \<Rightarrow> Some (st, n', ip'))"

text \<open>\<^verbatim>\<open>reset()\<close> (lines 154 to 159).\<close>

definition reset :: "('o, 'p, 'g, 'a) node \<Rightarrow> ('o, 'p, 'g, 'a) node" where
  "reset n = n\<lparr>lastMatchedTurn := - 1, counter := 0, futureComputed := False,
               last_fired := replicate (length (last_fired n)) 0\<rparr>"

section \<open>load\<close>

text \<open>
  \<^verbatim>\<open>parseInt\<close> of JavaScript on an attribute value: \<^verbatim>\<open>null\<close> (a missing attribute) reads as
  the string \<^verbatim>\<open>"null"\<close>; leading white space, a sign and the prefix \<^verbatim>\<open>0x\<close> are accepted and
  the longest prefix of digits is read. \<open>None\<close> is \<^verbatim>\<open>NaN\<close>.
\<close>

definition is_space :: "char \<Rightarrow> bool" where
  "is_space c \<longleftrightarrow> of_char c \<in> {9, 10, 11, 12, 13, 32 :: nat}"

definition digit_of :: "char \<Rightarrow> nat" where
  "digit_of c =
     (let k = (of_char c :: nat)
      in if 48 \<le> k \<and> k \<le> 57 then k - 48
         else if 97 \<le> k \<and> k \<le> 122 then k - 87
         else if 65 \<le> k \<and> k \<le> 90 then k - 55
         else 36)"

definition parseInt :: "string option \<Rightarrow> int option" where
  "parseInt a =
     (let s1 = dropWhile is_space (case a of None \<Rightarrow> ''null'' | Some s \<Rightarrow> s);
          neg = (take 1 s1 = ''-'');
          s2 = (if take 1 s1 = ''-'' \<or> take 1 s1 = ''+'' then drop 1 s1 else s1);
          hex = (take 2 s2 = ''0x'' \<or> take 2 s2 = ''0X'');
          radix = (if hex then 16 else 10);
          ds = map digit_of (takeWhile (\<lambda>c. digit_of c < radix) (if hex then drop 2 s2 else s2))
      in if ds = [] then None
         else Some ((if neg then - 1 else 1) * int (foldl (\<lambda>acc d. acc * radix + d) 0 ds)))"

text \<open>\<^verbatim>\<open>v || d\<close> on numbers: \<^verbatim>\<open>NaN\<close> and \<open>0\<close> are falsy.\<close>

definition or_else :: "'n::zero option \<Rightarrow> 'n \<Rightarrow> 'n" where
  "or_else v d = (case v of None \<Rightarrow> d | Some x \<Rightarrow> if x = 0 then d else x)"

text \<open>\<^verbatim>\<open>s.charCodeAt(0)\<close>; \<open>None\<close> is \<^verbatim>\<open>NaN\<close>.\<close>

definition charCodeAt0 :: "string \<Rightarrow> nat option" where
  "charCodeAt0 s = (case s of [] \<Rightarrow> None | c # cs \<Rightarrow> Some (of_char c))"

text \<open>
  \<^verbatim>\<open>arr[i] = v\<close> on a JavaScript array: a key that is \<^verbatim>\<open>undefined\<close> sets no element, an
  index past the end extends the array.
\<close>

definition array_put :: "'v option list \<Rightarrow> nat option \<Rightarrow> 'v \<Rightarrow> 'v option list" where
  "array_put xs i v =
     (case i of None \<Rightarrow> xs
      | Some k \<Rightarrow> if k < length xs then xs[k := Some v]
                  else xs @ replicate (k - length xs) None @ [Some v])"

text \<open>
  The DOM element \<open>'e\<close>, the helpers and the constructors that \<^verbatim>\<open>load\<close> calls and that are
  not among the sources are parameters. \<open>'sym\<close> is a symmetry mask.
\<close>

record ('e, 'sym, 'o, 'p) load_env =
  getAttribute :: "'e \<Rightarrow> string \<Rightarrow> string option"
  childrenByTag :: "'e \<Rightarrow> string \<Rightarrow> 'e list"
  matchTags :: "'e \<Rightarrow> string \<Rightarrow> 'e list"
  getSymmetry :: "bool \<Rightarrow> string option \<Rightarrow> 'sym \<Rightarrow> 'sym option"
  Rule_load :: "'e \<Rightarrow> grid \<Rightarrow> grid \<Rightarrow> rule option"
  symmetries :: "rule \<Rightarrow> 'sym \<Rightarrow> bool \<Rightarrow> rule list"
  new_Field :: "'e \<Rightarrow> grid \<Rightarrow> Field"
  new_Observation :: "nat option \<Rightarrow> string option \<Rightarrow> grid \<Rightarrow> 'o"
  new_Array2D :: "nat \<Rightarrow> nat \<Rightarrow> 'p"
  Array2D_fill :: "'p \<Rightarrow> int \<Rightarrow> 'p"
  parseFloat :: "string option \<Rightarrow> real option"

datatype load_result = LoadNull | LoadFalse | LoadTrue

text \<open>The loop over the rule elements (lines 65 to 90).\<close>

fun load_rules ::
  "('e, 'sym, 'o, 'p) load_env \<Rightarrow> grid \<Rightarrow> 'sym \<Rightarrow> 'e list \<Rightarrow> rule list \<Rightarrow> load_result + rule list" where
  "load_rules env g symmetry [] ruleList = Inr ruleList"
| "load_rules env g symmetry (e # es) ruleList =
     (case Rule_load env e g g of
        None \<Rightarrow> Inl LoadFalse
      | Some rule \<Rightarrow>
          (case getSymmetry env (MZ g = 1) (getAttribute env e ''symmetry'') symmetry of
             None \<Rightarrow> Inl LoadNull
           | Some ruleSymmetry \<Rightarrow>
               load_rules env g symmetry es
                 (ruleList @ symmetries env (rule\<lparr>original := True\<rparr>) ruleSymmetry (MZ g = 1))))"

text \<open>The loop over the field elements (lines 103 to 106).\<close>

fun load_fields ::
  "('e, 'sym, 'o, 'p) load_env \<Rightarrow> grid \<Rightarrow> 'e list \<Rightarrow> Field option list \<Rightarrow> Field option list option" where
  "load_fields env g [] fs = Some fs"
| "load_fields env g (efield # es) fs =
     (case getAttribute env efield ''for'' of
        None \<Rightarrow> None
      | Some a \<Rightarrow>
          load_fields env g es
            (array_put fs (case charCodeAt0 a of None \<Rightarrow> None | Some k \<Rightarrow> values_map g k)
               (new_Field env efield g)))"

text \<open>
  The loop over the observe elements (lines 120 to 130).
  \<^verbatim>\<open>grid.characters.charCodeAt(value)\<close> reads position 0 when \<^verbatim>\<open>value\<close> is \<^verbatim>\<open>undefined\<close>.
\<close>

fun load_observations ::
  "('e, 'sym, 'o, 'p) load_env \<Rightarrow> grid \<Rightarrow> 'e list \<Rightarrow> 'o option list \<Rightarrow> 'o option list option" where
  "load_observations env g [] os = Some os"
| "load_observations env g (eob # es) os =
     (case getAttribute env eob ''value'' of
        None \<Rightarrow> None
      | Some a \<Rightarrow>
          (let val = (case charCodeAt0 a of None \<Rightarrow> None | Some k \<Rightarrow> values_map g k);
               fallback = charCodeAt0 (drop (case val of None \<Rightarrow> 0 | Some v \<Rightarrow> v) (characters g));
               from = (case getAttribute env eob ''from'' of
                         None \<Rightarrow> fallback
                       | Some f \<Rightarrow>
                           (case charCodeAt0 f of
                              None \<Rightarrow> fallback
                            | Some k \<Rightarrow> if k = 0 then fallback else Some k))
           in load_observations env g es
                (array_put os val (new_Observation env from (getAttribute env eob ''to'') g))))"

text \<open>The assignments of lines 91 to 97.\<close>

definition load_attributes ::
  "('e, 'sym, 'o, 'p) load_env \<Rightarrow> 'e \<Rightarrow> rule list \<Rightarrow> ('o, 'p, 'g, 'a) node \<Rightarrow> ('o, 'p, 'g, 'a) node" where
  "load_attributes env elem ruleList n =
     n\<lparr>rules := ruleList,
       last_fired := replicate (length ruleList) 0,
       steps := or_else (parseInt (getAttribute env elem ''steps'')) 0,
       temperature := or_else (parseFloat env (getAttribute env elem ''temperature'')) 0\<rparr>"

text \<open>The fields (lines 99 to 115).\<close>

definition load_field_block ::
  "('e, 'sym, 'o, 'p) load_env \<Rightarrow> 'e \<Rightarrow> grid \<Rightarrow> ('o, 'p, 'g, 'a) node
     \<Rightarrow> ('o, 'p, 'g, 'a) node option" where
  "load_field_block env elem g n =
     (let efields = matchTags env elem ''field''
      in if efields \<noteq> [] then
           (case load_fields env g efields (replicate (C g) None) of
              None \<Rightarrow> None
            | Some fs \<Rightarrow>
                Some (n\<lparr>fields_arr := Some fs,
                        potentials :=
                          Some (Array2D_fill env (new_Array2D env (length (state g)) (C g)) 0)\<rparr>))
         else Some n)"

text \<open>The observations and the search mode (lines 117 to 149).\<close>

definition load_observe_block ::
  "('e, 'sym, 'o, 'p) load_env \<Rightarrow> 'e \<Rightarrow> grid \<Rightarrow> ('o, 'p, 'g, 'a) node
     \<Rightarrow> ('o, 'p, 'g, 'a) node option" where
  "load_observe_block env elem g n =
     (let eobs = childrenByTag env elem ''observe''
      in if eobs \<noteq> [] then
           (case load_observations env g eobs (replicate (C g) None) of
              None \<Rightarrow> None
            | Some os \<Rightarrow>
                (let n1 = n\<lparr>observations := Some os,
                            search := (getAttribute env elem ''search'' = Some ''True'')\<rparr>;
                     n2 =
                       (if search n1 then
                          n1\<lparr>limit := or_else (parseInt (getAttribute env elem ''limit'')) (- 1),
                             depthCoefficient :=
                               or_else (parseFloat env (getAttribute env elem ''depthCoefficient''))
                                 0.5\<rparr>
                        else (case potentials n1 of
                                None \<Rightarrow>
                                  n1\<lparr>potentials :=
                                       Some (new_Array2D env (length (state g)) (C g))\<rparr>
                              | Some p \<Rightarrow> n1))
                 in Some (n2\<lparr>future := replicate (length (state g)) 0\<rparr>)))
         else Some n)"

text \<open>
  \<^verbatim>\<open>load(elem, parentSymmetry, grid)\<close> (lines 46 to 152). The promise it returns resolves
  to \<^verbatim>\<open>null\<close>, \<^verbatim>\<open>false\<close> or \<^verbatim>\<open>true\<close>, or is rejected (\<open>None\<close>).
\<close>

definition load ::
  "('e, 'sym, 'o, 'p) load_env \<Rightarrow> 'e \<Rightarrow> 'sym \<Rightarrow> grid \<Rightarrow> ('o, 'p, 'g, 'a) node
     \<Rightarrow> (load_result \<times> ('o, 'p, 'g, 'a) node) option" where
  "load env elem parentSymmetry g n =
     (case getSymmetry env (MZ g = 1) (getAttribute env elem ''symmetry'') parentSymmetry of
        None \<Rightarrow> Some (LoadNull, n)
      | Some symmetry \<Rightarrow>
          (let rs = childrenByTag env elem ''rule'';
               ruleElements = (if length rs > 0 then rs else [elem])
           in case load_rules env g symmetry ruleElements [] of
                Inl res \<Rightarrow> Some (res, n)
              | Inr ruleList \<Rightarrow>
                  (case load_field_block env elem g (load_attributes env elem ruleList n) of
                     None \<Rightarrow> None
                   | Some n2 \<Rightarrow>
                       (case load_observe_block env elem g n2 of
                          None \<Rightarrow> None
                        | Some n3 \<Rightarrow> Some (LoadTrue, n3)))))"

section \<open>Notions used in the statements\<close>

text \<open>
  \<open>same_rest n n'\<close>: the node \<open>n'\<close> is \<open>n\<close> except for the match buffer, the match count
  and the mask.
\<close>

definition same_rest :: "('o, 'p, 'g, 'a) node \<Rightarrow> ('o, 'p, 'g, 'a) node \<Rightarrow> bool" where
  "same_rest n n' \<longleftrightarrow>
     n' = n\<lparr>matchMask := matchMask n', matches := matches n', matchCount := matchCount n'\<rparr>"

text \<open>
  \<open>computed_ok cnt failed fs c (k, ok)\<close>: an entry of the record of \<open>fields_loop\<close>, started
  at index \<open>c\<close> on the fields \<open>fs\<close>, names a field that is present and that is computed on
  the first run or recomputes; unless the loop returned FAIL, a failed field is not essential.
\<close>

definition computed_ok ::
  "int \<Rightarrow> bool \<Rightarrow> Field option list \<Rightarrow> nat \<Rightarrow> nat \<times> bool \<Rightarrow> bool" where
  "computed_ok cnt failed fs c e \<longleftrightarrow>
     (case e of (k, ok) \<Rightarrow>
        c \<le> k \<and> k < c + length fs \<and>
        (\<exists>f. fs ! (k - c) = Some f \<and> (cnt = 0 \<or> recompute f) \<and>
             (\<not> failed \<longrightarrow> ok \<or> \<not> essential f)))"


text \<open>
  The match list of a node: the quadruples \<open>(r, x, y, z)\<close> held in
  \<^verbatim>\<open>matches[0 .. 4 * matchCount)\<close>.
\<close>

type_synonym match = "nat \<times> int \<times> int \<times> int"

definition match_at :: "nat list \<Rightarrow> nat \<Rightarrow> match" where
  "match_at buf k =
     (buf ! (4 * k), int (buf ! (4 * k + 1)), int (buf ! (4 * k + 2)), int (buf ! (4 * k + 3)))"

definition match_list :: "('o, 'p, 'g, 'a) node \<Rightarrow> match list" where
  "match_list n = map (match_at (matches n)) [0..<matchCount n]"

text \<open>
  A match is valid for a grid and a rule list when its rule exists, its box lies within
  the grid and \<^verbatim>\<open>grid.matches\<close> holds at its anchor.
\<close>

definition valid_match :: "grid \<Rightarrow> rule list \<Rightarrow> match \<Rightarrow> bool" where
  "valid_match g rs t =
     (case t of (r, sx, sy, sz) \<Rightarrow>
        r < length rs \<and> \<not> out_of_bounds g (rs ! r) sx sy sz \<and> grid_matches g (rs ! r) sx sy sz)"

text \<open>
  Well-formed grids and rules: positive dimensions, a state array of the size of the grid
  with values below \<open>C\<close>, an input array of the size of the rule's box, and the table
  \<^verbatim>\<open>ishifts\<close> of the specification.
\<close>

definition grid_wf :: "grid \<Rightarrow> bool" where
  "grid_wf g \<longleftrightarrow>
     0 < MX g \<and> 0 < MY g \<and> 0 < MZ g \<and> int (length (state g)) = MX g * MY g * MZ g \<and>
     list_all (\<lambda>v. v < C g) (state g)"

definition rule_wf :: "grid \<Rightarrow> rule \<Rightarrow> bool" where
  "rule_wf g rule \<longleftrightarrow>
     0 < IMX rule \<and> 0 < IMY rule \<and> 0 < IMZ rule \<and>
     int (length (input rule)) = IMX rule * IMY rule * IMZ rule \<and> ishifts_ok (C g) rule"

text \<open>
  The size up to which the 32-bit shifts in \<^verbatim>\<open>add\<close> do not wrap: at most \<open>2^28 - 2\<close> pairs
  of a rule and a cell.
\<close>

definition fits_buffer :: "grid \<Rightarrow> rule list \<Rightarrow> bool" where
  "fits_buffer g rs \<longleftrightarrow> int (length rs) * MX g * MY g * MZ g \<le> 268435454"

text \<open>The buffer holds the match list: there are \<open>4 * matchCount\<close> elements.\<close>

definition buffer_ok :: "('o, 'p, 'g, 'a) node \<Rightarrow> bool" where
  "buffer_ok n \<longleftrightarrow> 4 * matchCount n \<le> length (matches n)"

text \<open>The mask \<open>K\<close> with the bits of the matches \<open>E\<close> set.\<close>

definition mask_with :: "grid \<Rightarrow> (nat \<Rightarrow> int \<Rightarrow> bool) \<Rightarrow> match list \<Rightarrow> nat \<Rightarrow> int \<Rightarrow> bool" where
  "mask_with g K E =
     (\<lambda>r i. K r i \<or> list_ex (\<lambda>t. case t of (r', x, y, z) \<Rightarrow>
                                 r' = r \<and> x + y * MX g + z * MX g * MY g = i) E)"

text \<open>
  \<open>extends g n E n'\<close>: \<open>n'\<close> is \<open>n\<close> with the matches \<open>E\<close> appended to its match list and
  their bits set in the mask.
\<close>

definition extends ::
  "grid \<Rightarrow> ('o, 'p, 'g, 'a) node \<Rightarrow> match list \<Rightarrow> ('o, 'p, 'g, 'a) node \<Rightarrow> bool" where
  "extends g n E n' \<longleftrightarrow>
     same_rest n n' \<and> buffer_ok n' \<and> matchCount n' = matchCount n + length E \<and>
     match_list n' = match_list n @ E \<and> matchMask n' = mask_with g (matchMask n) E"

text \<open>The values of the loop variable of \<^verbatim>\<open>for (let x = x0; x < m; x += d)\<close>, for \<open>d > 0\<close>.\<close>

function stride :: "int \<Rightarrow> int \<Rightarrow> int \<Rightarrow> int list" where
  "stride x m d = (if x < m \<and> 0 < d then x # stride (x + d) m d else [])"
  by pat_completeness auto
termination
  by (relation "measure (\<lambda>(x, m, d). nat (m - x))") auto

declare stride.simps [simp del]

text \<open>
  The matches that the full rescan adds: for the shifts of one visited cell, for one
  visited cell, for one rule, and for all rules.
\<close>

definition shift_entries :: "grid \<Rightarrow> nat \<Rightarrow> rule \<Rightarrow> int \<Rightarrow> int \<Rightarrow> int \<Rightarrow> cell list \<Rightarrow> match list" where
  "shift_entries g r rule x y z shifts =
     concat (map (\<lambda>s. case s of (a, b, c) \<Rightarrow>
        if \<not> out_of_bounds g rule (x - a) (y - b) (z - c) \<and> grid_matches g rule (x - a) (y - b) (z - c)
        then [(r, x - a, y - b, z - c)] else []) shifts)"

definition cell_entries :: "grid \<Rightarrow> nat \<Rightarrow> rule \<Rightarrow> int \<Rightarrow> int \<Rightarrow> int \<Rightarrow> match list" where
  "cell_entries g r rule x y z =
     shift_entries g r rule x y z (ishifts rule ! (state g ! nat (x + y * MX g + z * MX g * MY g)))"

definition rule_entries :: "grid \<Rightarrow> nat \<Rightarrow> rule \<Rightarrow> match list" where
  "rule_entries g r rule =
     concat (map (\<lambda>z. concat (map (\<lambda>y. concat (map (\<lambda>x. cell_entries g r rule x y z)
       (stride (IMX rule - 1) (MX g) (IMX rule))))
       (stride (IMY rule - 1) (MY g) (IMY rule))))
       (stride (IMZ rule - 1) (MZ g) (IMZ rule)))"

definition full_entries :: "grid \<Rightarrow> rule list \<Rightarrow> match list" where
  "full_entries g rs = concat (map (\<lambda>r. rule_entries g r (rs ! r)) [0..<length rs])"

text \<open>
  The coordinate that the full rescan visits in the interval from \<open>s\<close> to \<open>s + d - 1\<close>: the
  one that is \<open>d - 1\<close> modulo \<open>d\<close>.
\<close>

definition corner :: "int \<Rightarrow> int \<Rightarrow> int" where
  "corner d s = s + (d - 1 - s) mod d"

text \<open>A match whose rule exists and whose anchor is a cell of the grid.\<close>

definition in_grid_match :: "grid \<Rightarrow> rule list \<Rightarrow> match \<Rightarrow> bool" where
  "in_grid_match g rs t =
     (case t of (r, x, y, z) \<Rightarrow>
        r < length rs \<and> 0 \<le> x \<and> x < MX g \<and> 0 \<le> y \<and> y < MY g \<and> 0 \<le> z \<and> z < MZ g)"

text \<open>
  The invariant that links the mask to the match list: a bit is set exactly if the list
  holds a match of that rule at that cell index.
\<close>

definition mask_inv :: "grid \<Rightarrow> ('o, 'p, 'g, 'a) node \<Rightarrow> bool" where
  "mask_inv g n \<longleftrightarrow> matchMask n = mask_with g (\<lambda>r i. False) (match_list n)"

text \<open>
  The invariant of the match store: the buffer holds the list, no match is listed twice,
  every listed match is anchored in the grid, and the mask agrees with the list.
\<close>

definition matcher_inv :: "grid \<Rightarrow> ('o, 'p, 'g, 'a) node \<Rightarrow> bool" where
  "matcher_inv g n \<longleftrightarrow>
     buffer_ok n \<and> distinct (match_list n) \<and>
     list_all (in_grid_match g (rules n)) (match_list n) \<and> mask_inv g n"

text \<open>
  \<open>grows g n n'\<close>: \<open>n'\<close> is \<open>n\<close> with valid matches appended to its list, and satisfies the
  invariant.
\<close>

definition grows :: "grid \<Rightarrow> ('o, 'p, 'g, 'a) node \<Rightarrow> ('o, 'p, 'g, 'a) node \<Rightarrow> bool" where
  "grows g n n' \<longleftrightarrow>
     same_rest n n' \<and> matcher_inv g n' \<and>
     (\<exists>N. match_list n' = match_list n @ N \<and> list_all (valid_match g (rules n)) N)"

text \<open>A cell of the grid.\<close>

definition in_grid :: "grid \<Rightarrow> cell \<Rightarrow> bool" where
  "in_grid g c = (case c of (x, y, z) \<Rightarrow>
     0 \<le> x \<and> x < MX g \<and> 0 \<le> y \<and> y < MY g \<and> 0 \<le> z \<and> z < MZ g)"

text \<open>
  The cell lies in the box of the match: the match can only have become valid by an edit
  of such a cell.
\<close>

definition in_box :: "rule list \<Rightarrow> match \<Rightarrow> cell \<Rightarrow> bool" where
  "in_box rs t c =
     (case (t, c) of ((r, sx, sy, sz), (x, y, z)) \<Rightarrow>
        sx \<le> x \<and> x < sx + IMX (rs ! r) \<and> sy \<le> y \<and> y < sy + IMY (rs ! r) \<and>
        sz \<le> z \<and> z < sz + IMZ (rs ! r))"

text \<open>The valid matches that the incremental rescan looks for at a changed cell.\<close>

definition triggered :: "grid \<Rightarrow> rule list \<Rightarrow> cell \<Rightarrow> match list" where
  "triggered g rs c =
     (case c of (x, y, z) \<Rightarrow>
        concat (map (\<lambda>r. shift_entries g r (rs ! r) x y z
                       (ishifts (rs ! r) ! (state g ! nat (x + y * MX g + z * MX g * MY g))))
          [0..<length rs]))"

text \<open>
  The hypotheses on the edits between two rescans. \<open>g0\<close> is the grid at the earlier
  rescan and \<open>g\<close> the grid now: they have the same shape; every cell whose value differs
  is in the change log \<open>cs\<close>; and the matches of the earlier grid that are still valid are
  in the list of the node (matches that the edits made invalid may have been removed).
\<close>

definition same_shape :: "grid \<Rightarrow> grid \<Rightarrow> bool" where
  "same_shape g0 g \<longleftrightarrow> MX g0 = MX g \<and> MY g0 = MY g \<and> MZ g0 = MZ g \<and> C g0 = C g"

definition cells_of :: "grid \<Rightarrow> cell list" where
  "cells_of g =
     concat (map (\<lambda>z. concat (map (\<lambda>y. map (\<lambda>x. (x, y, z)) [0..MX g - 1]) [0..MY g - 1]))
       [0..MZ g - 1])"

definition edits_logged :: "grid \<Rightarrow> grid \<Rightarrow> cell list \<Rightarrow> bool" where
  "edits_logged g0 g cs \<longleftrightarrow>
     list_all (\<lambda>c. case c of (x, y, z) \<Rightarrow>
        state g ! nat (x + y * MX g + z * MX g * MY g) =
          state g0 ! nat (x + y * MX g + z * MX g * MY g) \<or> c \<in> set cs) (cells_of g)"

definition listed_before :: "grid \<Rightarrow> grid \<Rightarrow> ('o, 'p, 'g, 'a) node \<Rightarrow> bool" where
  "listed_before g0 g n \<longleftrightarrow>
     list_all (\<lambda>t. valid_match g (rules n) t \<longrightarrow> t \<in> set (match_list n))
       (full_entries g0 (rules n))"

section \<open>Example data\<close>

text \<open>
  A grid of one row over the alphabet \<^verbatim>\<open>BW\<close>, the rule with the one-cell input \<^verbatim>\<open>B\<close>, a
  node with this rule, and collaborators that do nothing. The search generator of the
  examples is a number: the count of its resumptions.
\<close>

definition env_of ::
  "bool \<Rightarrow> (nat \<Rightarrow> unit option iter_result \<times> nat) \<Rightarrow> (Field \<Rightarrow> nat \<Rightarrow> bool)
     \<Rightarrow> (unit, unit, nat, unit option, unit, unit) run_env" where
  "env_of ok nxt fc =
     \<lparr>computeFutureSetPresent = (\<lambda>fut st obs. (ok, fut)),
      computeBackwardPotentials = (\<lambda>p fut mx my mz rs. Some ()),
      Search_run = (\<lambda>st fut rs mx my mz c a l d seed. 0),
      gen_next = nxt,
      Array2D_from = (\<lambda>v. v),
      rng_int32 = (\<lambda>r. (0, r)),
      Field_compute = (\<lambda>f c p g. (fc f c, p))\<rparr>"

definition grid_of :: "nat list \<Rightarrow> grid" where
  "grid_of st = \<lparr>MX = int (length st), MY = 1, MZ = 1, C = 2, characters = ''BW'',
                 values_map = [66 \<mapsto> 0, 87 \<mapsto> 1], state = st\<rparr>"

definition rule_B :: rule where
  "rule_B = \<lparr>IMX = 1, IMY = 1, IMZ = 1, input = [1], ishifts = [[(0, 0, 0)], []], original = True\<rparr>"

definition node0 :: "(unit, unit, nat, unit) node" where
  "node0 = \<lparr>rules = [rule_B], counter = 0, steps = 0, matches = [], matchCount = 0,
            lastMatchedTurn = - 1, matchMask = (\<lambda>r i. False), potentials = None,
            fields_arr = None, observations = None, temperature = 0, search = False,
            futureComputed = False, future = [], trajectory = None, limit = - 1,
            depthCoefficient = 0.5, last_fired = [0], visited = 0, searching = None,
            searchTries = 0, isAllNode = False\<rparr>"

definition ip0 :: "unit interp" where
  "ip0 = \<lparr>changes = [], first = [], rng = ()\<rparr>"

text \<open>A generator that yields the count of its earlier resumptions and never returns.\<close>

definition counting :: "nat \<Rightarrow> unit option iter_result \<times> nat" where
  "counting k = (Yield (int k), k + 1)"

text \<open>A generator that returns at its first resumption, without a trajectory.\<close>

definition exhausted :: "nat \<Rightarrow> unit option iter_result \<times> nat" where
  "exhausted k = (Return None, k + 1)"

text \<open>
  An element (number 0) with one \<^verbatim>\<open>observe\<close> child (number 1) and no \<^verbatim>\<open>rule\<close> or \<^verbatim>\<open>field\<close>
  children; its attribute \<^verbatim>\<open>search\<close> is the parameter, and it has no other attribute.
\<close>

definition lenv_of :: "string option \<Rightarrow> (nat, unit, unit, unit) load_env" where
  "lenv_of srch =
     \<lparr>getAttribute = (\<lambda>e a. if e = 0 \<and> a = ''search'' then srch
                            else if e = 1 \<and> a = ''value'' then Some ''W''
                            else if e = 1 \<and> a = ''to'' then Some ''B''
                            else None),
      childrenByTag = (\<lambda>e t. if e = 0 \<and> t = ''observe'' then [1] else []),
      matchTags = (\<lambda>e t. []),
      getSymmetry = (\<lambda>d s p. Some ()),
      Rule_load = (\<lambda>e g g'. Some rule_B),
      symmetries = (\<lambda>r s d. [r]),
      new_Field = (\<lambda>e g. \<lparr>recompute = False, essential = False\<rparr>),
      new_Observation = (\<lambda>f t g. ()),
      new_Array2D = (\<lambda>a b. ()),
      Array2D_fill = (\<lambda>p v. p),
      parseFloat = (\<lambda>s. None)\<rparr>"

text \<open>
  A generator that returns a trajectory at its first resumption; like every finished
  generator it gives \<^verbatim>\<open>undefined\<close> (\<open>None\<close>) when resumed again.
\<close>

definition finishing :: "nat \<Rightarrow> unit option iter_result \<times> nat" where
  "finishing k = (if k = 0 then Return (Some ()) else Return None, k + 1)"

text \<open>A node with one essential field, for the value 0.\<close>

definition node_f :: "(unit, unit, nat, unit) node" where
  "node_f = node0\<lparr>fields_arr := Some [Some \<lparr>recompute = False, essential = True\<rparr>, None],
                  potentials := Some ()\<rparr>"


text \<open>
  A node with the rule of input \<^verbatim>\<open>BB\<close> on a row of three cells, after it has applied its
  match at cell 0 to the grid \<^verbatim>\<open>BBB\<close> (removing that match from its list): the grid is now
  \<^verbatim>\<open>WWB\<close>, the change log holds the cells 0 and 1, and the list still holds the match at
  cell 1, with its bit set.
\<close>

definition rule_BB :: rule where
  "rule_BB = \<lparr>IMX = 2, IMY = 1, IMZ = 1, input = [1, 1],
              ishifts = [[(0, 0, 0), (1, 0, 0)], []], original = True\<rparr>"

definition node_c :: "(unit, unit, nat, unit) node" where
  "node_c = node0\<lparr>rules := [rule_BB], matches := [0, 1, 0, 0, 0, 1, 0, 0], matchCount := 1,
                  matchMask := (\<lambda>r i. r = 0 \<and> i = 1), lastMatchedTurn := 0\<rparr>"

definition ip_c :: "unit interp" where
  "ip_c = \<lparr>changes = [(0, 0, 0), (1, 0, 0)], first = [0], rng = ()\<rparr>"

text \<open>
  A node with the rule of input \<^verbatim>\<open>B\<close> that lists the match at cell 2 of the grid \<^verbatim>\<open>WWB\<close>;
  then cell 0 is set to \<^verbatim>\<open>B\<close> and logged: the grid is \<^verbatim>\<open>BWB\<close>.
\<close>

definition node_w :: "(unit, unit, nat, unit) node" where
  "node_w = node0\<lparr>matches := [0, 2, 0, 0], matchCount := 1,
                  matchMask := (\<lambda>r i. r = 0 \<and> i = 2), lastMatchedTurn := 0\<rparr>"

definition ip_w :: "unit interp" where
  "ip_w = \<lparr>changes = [(0, 0, 0)], first = [0], rng = ()\<rparr>"

section \<open>Properties\<close>

subsection \<open>What the scans leave alone\<close>

lemma same_rest_refl: "same_rest n n"
  unfolding same_rest_def by simp

lemma same_rest_trans:
  assumes "same_rest a b" and "same_rest b c"
  shows "same_rest a c"
proof -
  have hb: "b = a\<lparr>matchMask := matchMask b, matches := matches b, matchCount := matchCount b\<rparr>"
    using assms(1) unfolding same_rest_def .
  have hc: "c = b\<lparr>matchMask := matchMask c, matches := matches c, matchCount := matchCount c\<rparr>"
    using assms(2) unfolding same_rest_def .
  have "c = a\<lparr>matchMask := matchMask c, matches := matches c, matchCount := matchCount c\<rparr>"
    by (subst hc, subst hb) simp
  then show ?thesis unfolding same_rest_def .
qed

lemma same_restI: "n' = n\<lparr>matchMask := m, matches := b, matchCount := c\<rparr> \<Longrightarrow> same_rest n n'"
  unfolding same_rest_def by simp

lemma for_each_same_rest:
  assumes "for_each body xs s = Some s'"
    and "\<And>x t t'. body x t = Some t' \<Longrightarrow> same_rest t t'"
  shows "same_rest s s'"
  using assms(1)
proof (induction xs arbitrary: s)
  case Nil
  then show ?case by (simp add: same_rest_refl)
next
  case (Cons x xs)
  from Cons.prems obtain s1 where b: "body x s = Some s1" and r: "for_each body xs s1 = Some s'"
    by (auto split: option.splits)
  show ?case using assms(2) [OF b] Cons.IH [OF r] by (rule same_rest_trans)
qed

lemma for_stride_same_rest:
  assumes "for_stride x m d body s = Some s'"
    and "\<And>x t t'. body x t = Some t' \<Longrightarrow> same_rest t t'"
  shows "same_rest s s'"
  using assms
proof (induction x m d body s rule: for_stride.induct)
  case (1 x m d body s)
  show ?case
  proof (cases "x < m")
    case False
    with "1.prems"(1) show ?thesis by (simp add: for_stride.simps same_rest_refl)
  next
    case True
    with "1.prems"(1) have d: "\<not> d \<le> 0" by (auto simp: for_stride.simps [of x] split: if_splits)
    from "1.prems"(1) True d obtain s1 where b: "body x s = Some s1"
      and r: "for_stride (x + d) m d body s1 = Some s'"
      by (auto simp: for_stride.simps [of x] split: option.splits)
    have "same_rest s s1" using b by (rule "1.prems"(2))
    moreover have "same_rest s1 s'" using "1.IH" [OF True d b r] "1.prems"(2) by blast
    ultimately show ?thesis by (rule same_rest_trans)
  qed
qed

lemma add_same_rest: "add g r x y z n = Some n' \<Longrightarrow> same_rest n n'"
  unfolding add_def Let_def
  by (auto split: if_splits intro!: same_restI)


lemma scan_cell_same_rest:
  assumes "scan_cell g r rule x y z n = Some n'"
  shows "same_rest n n'"
proof -
  from assms obtain shifts where
    "for_each (\<lambda>(shiftx, shifty, shiftz) n.
             let sx = x - shiftx; sy = y - shifty; sz = z - shiftz
             in if out_of_bounds g rule sx sy sz then Some n
                else if grid_matches g rule sx sy sz then add g r sx sy sz n
                else Some n) shifts n = Some n'"
    unfolding scan_cell_def by (auto split: option.splits)
  then show ?thesis
    by (rule for_each_same_rest)
      (auto simp: Let_def same_rest_refl split: if_splits dest: add_same_rest)
qed

lemma scan_change_same_rest:
  assumes "scan_change g r rule x y z v n = Some n'"
  shows "same_rest n n'"
proof -
  from assms obtain shifts where
    "for_each (\<lambda>(shiftx, shifty, shiftz) n.
             let sx = x - shiftx; sy = y - shifty; sz = z - shiftz
             in if out_of_bounds g rule sx sy sz then Some n
                else (let si = sx + sy * MX g + sz * MX g * MY g
                      in if \<not> matchMask n r si \<and> grid_matches g rule sx sy sz
                         then add g r sx sy sz n else Some n)) shifts n = Some n'"
    unfolding scan_change_def by (auto split: option.splits)
  then show ?thesis
    by (rule for_each_same_rest)
      (auto simp: Let_def same_rest_refl split: if_splits dest: add_same_rest)
qed

lemma full_rescan_same_rest:
  assumes "full_rescan g n = Some n'"
  shows "same_rest n n'"
proof -
  have "same_rest (n\<lparr>matchCount := 0\<rparr>) n'"
  proof (rule for_each_same_rest [OF assms [unfolded full_rescan_def]])
    fix r :: nat and s s' :: "('a, 'b, 'c, 'd) node"
    assume "(let rule = rules s ! r
             in for_stride (IMZ rule - 1) (MZ g) (IMZ rule) (\<lambda>z.
                  for_stride (IMY rule - 1) (MY g) (IMY rule) (\<lambda>y.
                    for_stride (IMX rule - 1) (MX g) (IMX rule) (\<lambda>x.
                      scan_cell g r rule x y z))) s) = Some s'"
    then have "for_stride (IMZ (rules s ! r) - 1) (MZ g) (IMZ (rules s ! r)) (\<lambda>z.
                  for_stride (IMY (rules s ! r) - 1) (MY g) (IMY (rules s ! r)) (\<lambda>y.
                    for_stride (IMX (rules s ! r) - 1) (MX g) (IMX (rules s ! r)) (\<lambda>x.
                      scan_cell g r (rules s ! r) x y z))) s = Some s'"
      by (simp add: Let_def)
    then show "same_rest s s'"
      by (rule for_stride_same_rest, elim for_stride_same_rest) (rule scan_cell_same_rest)
  qed
  moreover have "same_rest n (n\<lparr>matchCount := 0\<rparr>)"
    by (rule same_restI [where m = "matchMask n" and b = "matches n" and c = 0]) simp
  ultimately show ?thesis by (blast intro: same_rest_trans)
qed

lemma incremental_rescan_same_rest:
  assumes "incremental_rescan g ip n = Some n'"
  shows "same_rest n n'"
proof (cases "first_at ip (lastMatchedTurn n)")
  case None
  with assms show ?thesis by (simp add: incremental_rescan_def same_rest_refl)
next
  case (Some f)
  with assms have run: "for_each (\<lambda>(x, y, z) n.
             let val = state_at g (x + y * MX g + z * MX g * MY g)
             in for_each (\<lambda>r n. scan_change g r (rules n ! r) x y z val n)
                  [0..<length (rules n)] n)
            (drop f (changes ip)) n = Some n'"
    by (simp add: incremental_rescan_def)
  show ?thesis
  proof (rule for_each_same_rest [OF run])
    fix c :: cell and s s' :: "('a, 'b, 'c, 'd) node"
    assume "(case c of (x, y, z) \<Rightarrow> \<lambda>n.
             let val = state_at g (x + y * MX g + z * MX g * MY g)
             in for_each (\<lambda>r n. scan_change g r (rules n ! r) x y z val n)
                  [0..<length (rules n)] n) s = Some s'"
    then show "same_rest s s'"
      by (cases c) (auto simp: Let_def elim!: for_each_same_rest dest: scan_change_same_rest)
  qed
qed

lemma refresh_matches_same_rest: "refresh_matches g ip n = Some n' \<Longrightarrow> same_rest n n'"
  unfolding refresh_matches_def
  by (auto split: if_splits dest: incremental_rescan_same_rest full_rescan_same_rest)


lemma same_rest_sel:
  assumes "same_rest n n'"
  shows "futureComputed n' = futureComputed n" and "fields_arr n' = fields_arr n"
    and "counter n' = counter n" and "potentials n' = potentials n"
    and "searchTries n' = searchTries n" and "rules n' = rules n"
    and "lastMatchedTurn n' = lastMatchedTurn n"
proof -
  have h: "n' = n\<lparr>matchMask := matchMask n', matches := matches n', matchCount := matchCount n'\<rparr>"
    using assms unfolding same_rest_def .
  show "futureComputed n' = futureComputed n" by (subst h) simp
  show "fields_arr n' = fields_arr n" by (subst h) simp
  show "counter n' = counter n" by (subst h) simp
  show "potentials n' = potentials n" by (subst h) simp
  show "searchTries n' = searchTries n" by (subst h) simp
  show "rules n' = rules n" by (subst h) simp
  show "lastMatchedTurn n' = lastMatchedTurn n" by (subst h) simp
qed

lemma run_fields_sel:
  assumes "run_fields env g n = Some (st, n', cs)"
  shows "futureComputed n' = futureComputed n" and "searchTries n' = searchTries n"
    and "matches n' = matches n" and "matchCount n' = matchCount n" and "matchMask n' = matchMask n"
  using assms unfolding run_fields_def
  by (auto split: option.splits sum.splits prod.splits if_splits)

lemma observe_sel:
  assumes "observe env g ip n = Some (r, n', ip')"
  shows "fields_arr n' = fields_arr n" and "counter n' = counter n"
    and "matches n' = matches n" and "matchCount n' = matchCount n" and "matchMask n' = matchMask n"
    and "lastMatchedTurn n' = lastMatchedTurn n" and "rules n' = rules n"
  using assms unfolding observe_def start_search_def
  by (auto split: option.splits sum.splits prod.splits if_splits iter_result.splits simp: Let_def)

lemma load_rules_not_true: "load_rules env g sy es acc \<noteq> Inl LoadTrue"
  by (induction es arbitrary: acc) (auto split: option.splits)

lemma load_block_steps:
  "load_field_block env elem g n = Some n' \<Longrightarrow> steps n' = steps n"
  "load_observe_block env elem g n = Some n' \<Longrightarrow> steps n' = steps n"
  by (auto simp: load_field_block_def load_observe_block_def Let_def
      split: option.splits if_splits)

lemma load_true:
  assumes "load env elem psym g n = Some (LoadTrue, n')"
  shows "\<exists>rl n2. load_field_block env elem g (load_attributes env elem rl n) = Some n2 \<and>
           load_observe_block env elem g n2 = Some n'"
proof (cases "getSymmetry env (MZ g = 1) (getAttribute env elem ''symmetry'') psym")
  case None
  with assms show ?thesis by (simp add: load_def)
next
  case (Some sy)
  show ?thesis
  proof (cases "load_rules env g sy (if length (childrenByTag env elem ''rule'') > 0
                  then childrenByTag env elem ''rule'' else [elem]) []")
    case (Inl res)
    with assms Some have "res = LoadTrue" by (simp add: load_def Let_def)
    with Inl have False by (simp add: load_rules_not_true)
    then show ?thesis ..
  next
    case (Inr rl)
    with assms Some show ?thesis
      by (auto simp: load_def Let_def split: option.splits)
  qed
qed


subsection \<open>The phases of run\<close>

lemma run_traced_past_limit:
  "\<not> (0 < steps n \<and> steps n \<le> counter n) \<Longrightarrow>
     run_traced env g ip n = run_body env g ip (n\<lparr>last_fired := replicate (length (last_fired n)) 0\<rparr>)"
  by (auto simp: run_traced_def Let_def)

lemma run_body_futureComputed:
  assumes "run_body env g ip n = Some (st, n', ip', cs)"
    and "observe env g ip n = Some (None, n1, ip1)"
  shows "futureComputed n' = futureComputed n1"
proof -
  from assms obtain n2 where r: "refresh_matches g ip1 n1 = Some n2"
    and f: "run_fields env g n2 = Some (st, n', cs)"
    by (auto simp: run_body_def split: option.splits)
  show ?thesis
    using same_rest_sel(1) [OF refresh_matches_same_rest [OF r]] run_fields_sel(1) [OF f] by simp
qed


subsection \<open>The loop over the fields\<close>

lemma computed_ok_shift:
  assumes "computed_ok cnt failed fs (Suc c) e"
  shows "computed_ok cnt failed (fo # fs) c e"
proof -
  obtain k ok where e: "e = (k, ok)" by (cases e)
  from assms e have le: "Suc c \<le> k" by (simp add: computed_ok_def)
  then have "k - c = Suc (k - Suc c)" by arith
  then have "(fo # fs) ! (k - c) = fs ! (k - Suc c)" by simp
  with assms e le show ?thesis by (auto simp: computed_ok_def)
qed

lemma computed_ok_here:
  "cnt = 0 \<or> recompute f \<Longrightarrow> \<not> failed \<longrightarrow> ok \<or> \<not> essential f \<Longrightarrow>
     computed_ok cnt failed (Some f # fs) c (c, ok)"
  by (simp add: computed_ok_def)

lemma fields_loop_spec:
  assumes "fields_loop env g cnt fs c as ac pot cs0 = Some (res, pot', cs)"
  shows "\<exists>new. cs = cs0 @ new \<and>
           (\<forall>e \<in> set new. computed_ok cnt (res = Inl ()) fs c e) \<and>
           (case res of
              Inl u \<Rightarrow> True
            | Inr (as', ac') \<Rightarrow>
                (as' \<longleftrightarrow> as \<or> (\<exists>e \<in> set new. snd e)) \<and> (ac' \<longleftrightarrow> ac \<or> new \<noteq> []))"
  using assms
proof (induction fs arbitrary: c as ac pot cs0)
  case Nil
  then show ?case by auto
next
  case (Cons fo fs)
  have skip: ?case
    if "fields_loop env g cnt fs (c + 1) as ac pot cs0 = Some (res, pot', cs)"
  proof -
    from Cons.IH [OF that] obtain new where n: "cs = cs0 @ new"
      "\<forall>e \<in> set new. computed_ok cnt (res = Inl ()) fs (c + 1) e"
      "(case res of
              Inl u \<Rightarrow> True
            | Inr (as', ac') \<Rightarrow>
                (as' \<longleftrightarrow> as \<or> (\<exists>e \<in> set new. snd e)) \<and> (ac' \<longleftrightarrow> ac \<or> new \<noteq> []))"
      by blast
    have "\<forall>e \<in> set new. computed_ok cnt (res = Inl ()) (fo # fs) c e"
      using n(2) by (auto intro: computed_ok_shift)
    with n(1,3) show ?thesis by blast
  qed
  show ?case
  proof (cases fo)
    case None
    with Cons.prems show ?thesis by (intro skip) simp
  next
    case (Some f)
    show ?thesis
    proof (cases "cnt = 0 \<or> recompute f")
      case False
      with Some Cons.prems show ?thesis by (intro skip) simp
    next
      case True
      with Some Cons.prems obtain p where p: "pot = Some p"
        by (cases pot) auto
      obtain success p' where fc: "Field_compute env f c p g = (success, p')"
        by (cases "Field_compute env f c p g")
      show ?thesis
      proof (cases "\<not> success \<and> essential f")
        case fail: True
        with Some True p fc Cons.prems have "res = Inl ()" "cs = cs0 @ [(c, success)]"
          by auto
        then show ?thesis
          using True Some by (auto intro!: exI [of _ "[(c, success)]"] computed_ok_here)
      next
        case nofail: False
        with Some True p fc Cons.prems have
          "fields_loop env g cnt fs (c + 1) (as \<or> success) True (Some p') (cs0 @ [(c, success)])
             = Some (res, pot', cs)"
          by auto
        from Cons.IH [OF this] obtain new where n: "cs = (cs0 @ [(c, success)]) @ new"
          "\<forall>e \<in> set new. computed_ok cnt (res = Inl ()) fs (c + 1) e"
          "(case res of
              Inl u \<Rightarrow> True
            | Inr (as', ac') \<Rightarrow>
                (as' \<longleftrightarrow> (as \<or> success) \<or> (\<exists>e \<in> set new. snd e)) \<and> (ac' \<longleftrightarrow> True \<or> new \<noteq> []))"
          by blast
        have a: "\<forall>e \<in> set ((c, success) # new). computed_ok cnt (res = Inl ()) (fo # fs) c e"
          using n(2) True Some nofail by (auto intro: computed_ok_shift computed_ok_here)
        have b: "cs = cs0 @ ((c, success) # new)" using n(1) by simp
        have c: "(case res of
              Inl u \<Rightarrow> True
            | Inr (as', ac') \<Rightarrow>
                (as' \<longleftrightarrow> as \<or> (\<exists>e \<in> set ((c, success) # new). snd e)) \<and>
                (ac' \<longleftrightarrow> ac \<or> (c, success) # new \<noteq> []))"
          using n(3) by (auto split: sum.splits)
        from a b c show ?thesis by blast
      qed
    qed
  qed
qed


subsection \<open>The counter searchTries is never read\<close>

lemma for_each_equivariant:
  assumes "\<And>x s. body x (u s) = map_option u (body x s)"
  shows "for_each body xs (u s) = map_option u (for_each body xs s)"
proof (induction xs arbitrary: s)
  case Nil
  show ?case by simp
next
  case (Cons x xs)
  show ?case by (cases "body x s") (simp_all add: assms Cons.IH)
qed

lemma for_stride_equivariant:
  assumes "\<And>x s. body x (u s) = map_option u (body x s)"
  shows "for_stride x m d body (u s) = map_option u (for_stride x m d body s)"
  using assms
proof (induction x m d body s rule: for_stride.induct)
  case (1 x m d body s)
  show ?case
  proof (cases "x < m \<and> \<not> d \<le> 0")
    case False
    then show ?thesis by (auto simp: for_stride.simps [of x])
  next
    case True
    show ?thesis
    proof (cases "body x s")
      case None
      with True "1.prems" show ?thesis by (simp add: for_stride.simps [of x])
    next
      case (Some s1)
      from "1.IH" [OF _ _ Some "1.prems"] True
      have "for_stride (x + d) m d body (u s1) = map_option u (for_stride (x + d) m d body s1)"
        by simp
      with True Some "1.prems" show ?thesis by (simp add: for_stride.simps [of x])
    qed
  qed
qed

lemma add_searchTries:
  "add g r x y z (searchTries_update f n) = map_option (searchTries_update f) (add g r x y z n)"
  by (simp add: add_def Let_def)

lemma scan_cell_searchTries:
  "scan_cell g r rule x y z (searchTries_update f n) =
     map_option (searchTries_update f) (scan_cell g r rule x y z n)"
  unfolding scan_cell_def
  by (auto split: option.splits intro!: for_each_equivariant simp: Let_def add_searchTries)

lemma scan_change_searchTries:
  "scan_change g r rule x y z v (searchTries_update f n) =
     map_option (searchTries_update f) (scan_change g r rule x y z v n)"
  unfolding scan_change_def
  by (auto split: option.splits intro!: for_each_equivariant simp: Let_def add_searchTries)

lemma full_rescan_searchTries:
  "full_rescan g (searchTries_update f n) = map_option (searchTries_update f) (full_rescan g n)"
proof -
  have "full_rescan g (searchTries_update f n) =
      for_each (\<lambda>r n.
        let rule = rules n ! r
        in for_stride (IMZ rule - 1) (MZ g) (IMZ rule) (\<lambda>z.
             for_stride (IMY rule - 1) (MY g) (IMY rule) (\<lambda>y.
               for_stride (IMX rule - 1) (MX g) (IMX rule) (\<lambda>x.
                 scan_cell g r rule x y z))) n)
       [0..<length (rules n)] (searchTries_update f (n\<lparr>matchCount := 0\<rparr>))"
  proof -
    have c: "(searchTries_update f n)\<lparr>matchCount := 0\<rparr> = searchTries_update f (n\<lparr>matchCount := 0\<rparr>)"
      by (cases n) simp
    have r: "rules (searchTries_update f n) = rules n" by simp
    show ?thesis unfolding full_rescan_def c r ..
  qed
  also have "\<dots> = map_option (searchTries_update f) (full_rescan g n)"
    unfolding full_rescan_def
    by (rule for_each_equivariant)
      (simp add: Let_def for_stride_equivariant scan_cell_searchTries)
  finally show ?thesis .
qed

lemma incremental_rescan_searchTries:
  "incremental_rescan g ip (searchTries_update f n) =
     map_option (searchTries_update f) (incremental_rescan g ip n)"
proof (cases "first_at ip (lastMatchedTurn n)")
  case None
  then show ?thesis by (simp add: incremental_rescan_def)
next
  case (Some k)
  have "for_each (\<lambda>(x, y, z) n.
             let val = state_at g (x + y * MX g + z * MX g * MY g)
             in for_each (\<lambda>r n. scan_change g r (rules n ! r) x y z val n)
                  [0..<length (rules n)] n)
            (drop k (changes ip)) (searchTries_update f n) =
        map_option (searchTries_update f) (for_each (\<lambda>(x, y, z) n.
             let val = state_at g (x + y * MX g + z * MX g * MY g)
             in for_each (\<lambda>r n. scan_change g r (rules n ! r) x y z val n)
                  [0..<length (rules n)] n)
            (drop k (changes ip)) n)"
    by (rule for_each_equivariant)
      (auto simp: Let_def scan_change_searchTries intro!: for_each_equivariant)
  with Some show ?thesis by (simp add: incremental_rescan_def)
qed

lemma refresh_matches_searchTries:
  "refresh_matches g ip (searchTries_update f n) =
     map_option (searchTries_update f) (refresh_matches g ip n)"
  by (simp add: refresh_matches_def incremental_rescan_searchTries full_rescan_searchTries)

lemma run_fields_searchTries:
  "run_fields env g (searchTries_update f n) =
     map_option (\<lambda>(st, m, cs). (st, searchTries_update f m, cs)) (run_fields env g n)"
  by (auto simp: run_fields_def split: option.splits sum.splits prod.splits)

lemma observe_searchTries:
  "observe env g ip (n\<lparr>searchTries := k\<rparr>) =
     map_option (\<lambda>(r, m, ip'). (r, m\<lparr>searchTries := searchTries m - searchTries n + k\<rparr>, ip'))
       (observe env g ip n)"
  unfolding observe_def start_search_def
  by (auto split: option.splits sum.splits prod.splits iter_result.splits simp: Let_def)


lemma run_body_searchTries:
  "run_body env g ip (n\<lparr>searchTries := k\<rparr>) =
     map_option (\<lambda>(st, m, ip', cs). (st, m\<lparr>searchTries := searchTries m - searchTries n + k\<rparr>, ip', cs))
       (run_body env g ip n)"
proof (cases "observe env g ip n")
  case None
  then show ?thesis by (simp add: run_body_def observe_searchTries)
next
  case (Some a)
  obtain r n1 ip1 where a: "a = (r, n1, ip1)" by (cases a)
  let ?k1 = "searchTries n1 - searchTries n + k"
  have ob: "observe env g ip (n\<lparr>searchTries := k\<rparr>) = Some (r, n1\<lparr>searchTries := ?k1\<rparr>, ip1)"
    using Some a by (simp add: observe_searchTries)
  show ?thesis
  proof (cases r)
    case (Some st)
    with ob \<open>observe env g ip n = Some a\<close> a show ?thesis by (simp add: run_body_def)
  next
    case None
    show ?thesis
    proof (cases "refresh_matches g ip1 n1")
      case rn: None
      with ob None \<open>observe env g ip n = Some a\<close> a show ?thesis
        by (simp add: run_body_def refresh_matches_searchTries)
    next
      case (Some n2)
      have s2: "searchTries n2 = searchTries n1"
        using same_rest_sel(5) [OF refresh_matches_same_rest [OF Some]] .
      show ?thesis
      proof (cases "run_fields env g n2")
        case rf: None
        with ob None Some \<open>observe env g ip n = Some a\<close> a show ?thesis
          by (simp add: run_body_def refresh_matches_searchTries run_fields_searchTries)
      next
        case rf: (Some b)
        obtain st n3 cs where b: "b = (st, n3, cs)" by (cases b)
        have s3: "searchTries n3 = searchTries n1"
          using run_fields_sel(2) [OF rf [unfolded b]] s2 by simp
        show ?thesis
          using ob None Some \<open>observe env g ip n = Some a\<close> a rf b s3
          by (simp add: run_body_def refresh_matches_searchTries run_fields_searchTries)
      qed
    qed
  qed
qed

lemma run_searchTries:
  "run env g ip (n\<lparr>searchTries := k\<rparr>) =
     map_option (\<lambda>(st, m, ip'). (st, m\<lparr>searchTries := searchTries m - searchTries n + k\<rparr>, ip'))
       (run env g ip n)"
proof -
  let ?z = "replicate (length (last_fired n)) 0"
  have c: "n\<lparr>searchTries := k, last_fired := ?z\<rparr> = n\<lparr>last_fired := ?z, searchTries := k\<rparr>"
    by (cases n) simp
  show ?thesis
  proof (cases "0 < steps n \<and> steps n \<le> counter n")
    case True
    then show ?thesis by (simp add: run_def run_traced_def Let_def c)
  next
    case False
    have "run_traced env g ip (n\<lparr>searchTries := k\<rparr>) =
        run_body env g ip ((n\<lparr>last_fired := ?z\<rparr>)\<lparr>searchTries := k\<rparr>)"
      using False by (auto simp: run_traced_def Let_def c)
    moreover have "run_traced env g ip n = run_body env g ip (n\<lparr>last_fired := ?z\<rparr>)"
      using False by (auto simp: run_traced_def Let_def)
    ultimately show ?thesis
      by (cases "run_body env g ip (n\<lparr>last_fired := ?z\<rparr>)")
        (auto simp: run_def run_body_searchTries)
  qed
qed

lemma load_block_searchTries:
  "load_field_block env elem g (n\<lparr>searchTries := k\<rparr>) =
     map_option (\<lambda>m. m\<lparr>searchTries := k\<rparr>) (load_field_block env elem g n)"
  "load_observe_block env elem g (n\<lparr>searchTries := k\<rparr>) =
     map_option (\<lambda>m. m\<lparr>searchTries := k\<rparr>) (load_observe_block env elem g n)"
  "load_attributes env elem rl (n\<lparr>searchTries := k\<rparr>) = (load_attributes env elem rl n)\<lparr>searchTries := k\<rparr>"
  by (auto simp: load_field_block_def load_observe_block_def load_attributes_def Let_def
      split: option.splits)

lemma load_searchTries:
  "load env elem psym g (n\<lparr>searchTries := k\<rparr>) =
     map_option (\<lambda>(res, m). (res, m\<lparr>searchTries := k\<rparr>)) (load env elem psym g n)"
  by (auto simp: load_def Let_def load_block_searchTries split: option.splits sum.splits)


subsection \<open>The observation block of load\<close>

lemma load_observe_block_search:
  assumes "load_observe_block env elem g n = Some n'"
    and "childrenByTag env elem ''observe'' \<noteq> []"
  shows "search n' \<longleftrightarrow> getAttribute env elem ''search'' = Some ''True''"
    and "observations n' \<noteq> None"
    and "\<not> search n' \<Longrightarrow> potentials n' \<noteq> None"
  using assms
  by (auto simp: load_observe_block_def Let_def split: option.splits if_splits)


subsection \<open>The step limit\<close>

text \<open>
  Claim C4. When the attribute \<^verbatim>\<open>steps\<close> of a node is positive and its counter has reached
  it at the entry to \<^verbatim>\<open>run()\<close>, the call returns FAIL (having cleared \<^verbatim>\<open>last\<close> and nothing
  else). When \<^verbatim>\<open>steps\<close> is 0 the test of the step limit never fails the call: \<^verbatim>\<open>run()\<close> is
  then the rest of its body, whatever the counter is. And 0 is what \<^verbatim>\<open>load\<close> stores for an
  element without the attribute \<^verbatim>\<open>steps\<close>.
\<close>

theorem run_step_limit:
  "(0 < steps n \<and> steps n \<le> counter n \<longrightarrow>
      run env g ip n = Some (FAIL, n\<lparr>last_fired := replicate (length (last_fired n)) 0\<rparr>, ip)) \<and>
   (steps n = 0 \<longrightarrow>
      run_traced env g ip n =
        run_body env g ip (n\<lparr>last_fired := replicate (length (last_fired n)) 0\<rparr>)) \<and>
   (getAttribute lenv elem ''steps'' = None \<longrightarrow> load lenv elem psym g' m = Some (LoadTrue, m')
      \<longrightarrow> steps m' = 0)"
proof (intro conjI impI)
  assume "0 < steps n \<and> steps n \<le> counter n"
  then show "run env g ip n = Some (FAIL, n\<lparr>last_fired := replicate (length (last_fired n)) 0\<rparr>, ip)"
    by (simp add: run_def run_traced_def Let_def)
next
  assume "steps n = 0"
  then show "run_traced env g ip n =
      run_body env g ip (n\<lparr>last_fired := replicate (length (last_fired n)) 0\<rparr>)"
    by (simp add: run_traced_def Let_def)
next
  assume a: "getAttribute lenv elem ''steps'' = None" and l: "load lenv elem psym g' m = Some (LoadTrue, m')"
  have p: "parseInt None = None" by code_simp
  from load_true [OF l] obtain rl n2 where
    "load_field_block lenv elem g' (load_attributes lenv elem rl m) = Some n2"
    "load_observe_block lenv elem g' n2 = Some m'"
    by blast
  then have "steps m' = steps (load_attributes lenv elem rl m)"
    by (simp add: load_block_steps)
  then show "steps m' = 0"
    by (simp add: load_attributes_def a p or_else_def)
qed

theorem run_step_limit_witness:
  "(0 < steps (node0\<lparr>steps := 3, counter := 5\<rparr>) \<and>
    steps (node0\<lparr>steps := 3, counter := 5\<rparr>) \<le> counter (node0\<lparr>steps := 3, counter := 5\<rparr>) \<and>
    run (env_of True counting (\<lambda>f c. True)) (grid_of [0, 0]) ip0 (node0\<lparr>steps := 3, counter := 5\<rparr>) =
      Some (FAIL, node0\<lparr>steps := 3, counter := 5, last_fired := [0]\<rparr>, ip0)) \<and>
   (steps (node0\<lparr>counter := 5\<rparr>) = 0 \<and>
    run_traced (env_of True counting (\<lambda>f c. True)) (grid_of [0, 0]) ip0 (node0\<lparr>counter := 5\<rparr>) =
      run_body (env_of True counting (\<lambda>f c. True)) (grid_of [0, 0]) ip0
        (node0\<lparr>counter := 5, last_fired := [0]\<rparr>)) \<and>
   (getAttribute (lenv_of None) 0 ''steps'' = None \<and>
    (\<exists>m'. load (lenv_of None) 0 () (grid_of [0, 0]) node0 = Some (LoadTrue, m') \<and> steps m' = 0))"
proof -
  have l: "last_fired node0 = [0]" by (simp add: node0_def)
  have a: "getAttribute (lenv_of None) 0 ''steps'' = None" by (simp add: lenv_of_def)
  obtain m' where m: "load (lenv_of None) 0 () (grid_of [0, 0]) node0 = Some (LoadTrue, m')"
    by (simp add: load_def lenv_of_def load_field_block_def load_observe_block_def Let_def
        grid_of_def charCodeAt0_def array_put_def node0_def load_attributes_def)
  show ?thesis
    using run_step_limit [of "node0\<lparr>steps := 3, counter := 5\<rparr>" "env_of True counting (\<lambda>f c. True)"
        "grid_of [0, 0]" ip0 "lenv_of None" 0 "()" "grid_of [0, 0]" node0 m']
      run_step_limit [of "node0\<lparr>counter := 5\<rparr>" "env_of True counting (\<lambda>f c. True)"
        "grid_of [0, 0]" ip0 "lenv_of None" 0 "()" "grid_of [0, 0]" node0 m']
      a m l
    by (simp add: node0_def)
qed

subsection \<open>Observations without search\<close>

text \<open>
  Claim C5, as amended. For a node with observations, search disabled and
  \<^verbatim>\<open>futureComputed\<close> false whose step limit is not reached: when the future set is
  unsatisfiable, \<^verbatim>\<open>run()\<close> returns FAIL and \<^verbatim>\<open>futureComputed\<close> stays false; otherwise the
  matches are refreshed on the node in which \<^verbatim>\<open>futureComputed\<close> is true and \<^verbatim>\<open>potentials\<close>
  holds the backward potentials, and \<^verbatim>\<open>futureComputed\<close> is true when \<^verbatim>\<open>run()\<close> returns.
\<close>

theorem run_backward_potentials:
  assumes "observations n = Some obs" and "\<not> search n" and "\<not> futureComputed n"
    and "\<not> (0 < steps n \<and> steps n \<le> counter n)"
    and "computeFutureSetPresent env (future n) (state g) obs = (ok, fut)"
  shows "(\<not> ok \<longrightarrow> (\<exists>n'. run env g ip n = Some (FAIL, n', ip) \<and> \<not> futureComputed n')) \<and>
         (ok \<longrightarrow>
            run_traced env g ip n =
              (case refresh_matches g ip
                      (n\<lparr>last_fired := replicate (length (last_fired n)) 0, future := fut,
                         futureComputed := True,
                         potentials := computeBackwardPotentials env (potentials n) fut
                                         (MX g) (MY g) (MZ g) (rules n)\<rparr>) of
                 None \<Rightarrow> None
               | Some n2 \<Rightarrow>
                   (case run_fields env g n2 of
                      None \<Rightarrow> None
                    | Some (st, n3, cs) \<Rightarrow> Some (st, n3, ip, cs)))) \<and>
         (ok \<longrightarrow> (\<forall>st n' ip'. run env g ip n = Some (st, n', ip') \<longrightarrow> futureComputed n'))"
proof -
  let ?n0 = "n\<lparr>last_fired := replicate (length (last_fired n)) 0\<rparr>"
  let ?n1 = "n\<lparr>last_fired := replicate (length (last_fired n)) 0, future := fut,
                futureComputed := True,
                potentials := computeBackwardPotentials env (potentials n) fut
                                (MX g) (MY g) (MZ g) (rules n)\<rparr>"
  have rt: "run_traced env g ip n = run_body env g ip ?n0"
    using assms(4) by (rule run_traced_past_limit)
  have bad: "\<not> ok \<Longrightarrow> observe env g ip ?n0 = Some (Some FAIL, ?n0\<lparr>future := fut\<rparr>, ip)"
    using assms by (simp add: observe_def)
  have good: "ok \<Longrightarrow> observe env g ip ?n0 = Some (None, ?n1, ip)"
    using assms by (simp add: observe_def)
  have 1: "\<exists>n'. run env g ip n = Some (FAIL, n', ip) \<and> \<not> futureComputed n'" if "\<not> ok"
    using bad [OF that] assms(3) by (simp add: run_def rt run_body_def)
  have 2: "run_traced env g ip n =
              (case refresh_matches g ip ?n1 of
                 None \<Rightarrow> None
               | Some n2 \<Rightarrow>
                   (case run_fields env g n2 of
                      None \<Rightarrow> None
                    | Some (st, n3, cs) \<Rightarrow> Some (st, n3, ip, cs)))" if ok
    using good [OF that] by (simp add: rt run_body_def)
  have 3: "futureComputed n'" if ok and "run env g ip n = Some (st, n', ip')" for st n' ip'
  proof -
    from that(2) obtain cs where "run_body env g ip ?n0 = Some (st, n', ip', cs)"
      by (auto simp: run_def rt split: option.splits)
    from run_body_futureComputed [OF this good [OF that(1)]] show ?thesis by simp
  qed
  from 1 2 3 show ?thesis by blast
qed

text \<open>An instance with an unsatisfiable and one with a satisfiable future set.\<close>

theorem run_backward_potentials_witness:
  "observations (node0\<lparr>observations := Some []\<rparr>) = Some [] \<and>
   \<not> search (node0\<lparr>observations := Some []\<rparr>) \<and>
   \<not> futureComputed (node0\<lparr>observations := Some []\<rparr>) \<and>
   \<not> (0 < steps (node0\<lparr>observations := Some []\<rparr>) \<and>
      steps (node0\<lparr>observations := Some []\<rparr>) \<le> counter (node0\<lparr>observations := Some []\<rparr>)) \<and>
   computeFutureSetPresent (env_of False counting (\<lambda>f c. True))
     (future (node0\<lparr>observations := Some []\<rparr>)) (state (grid_of [0, 0])) [] = (False, []) \<and>
   computeFutureSetPresent (env_of True counting (\<lambda>f c. True))
     (future (node0\<lparr>observations := Some []\<rparr>)) (state (grid_of [0, 0])) [] = (True, []) \<and>
   (\<exists>n'. run (env_of False counting (\<lambda>f c. True)) (grid_of [0, 0]) ip0
           (node0\<lparr>observations := Some []\<rparr>) = Some (FAIL, n', ip0) \<and> \<not> futureComputed n') \<and>
   (\<exists>st n' ip'. run (env_of True counting (\<lambda>f c. True)) (grid_of [0, 0]) ip0
           (node0\<lparr>observations := Some []\<rparr>) = Some (st, n', ip') \<and> futureComputed n')"
proof -
  let ?n = "node0\<lparr>observations := Some []\<rparr>"
  have h: "observations ?n = Some []" "\<not> search ?n" "\<not> futureComputed ?n"
    "\<not> (0 < steps ?n \<and> steps ?n \<le> counter ?n)"
    by (simp_all add: node0_def)
  have f: "computeFutureSetPresent (env_of False counting (\<lambda>f c. True))
     (future ?n) (state (grid_of [0, 0])) [] = (False, [])"
    by (simp add: env_of_def node0_def)
  have t: "computeFutureSetPresent (env_of True counting (\<lambda>f c. True))
     (future ?n) (state (grid_of [0, 0])) [] = (True, [])"
    by (simp add: env_of_def node0_def)
  have "run (env_of True counting (\<lambda>f c. True)) (grid_of [0, 0]) ip0 ?n \<noteq> None"
    by code_simp
  then obtain st n' ip' where
    r: "run (env_of True counting (\<lambda>f c. True)) (grid_of [0, 0]) ip0 ?n = Some (st, n', ip')"
    by auto
  have 1: "\<exists>n'. run (env_of False counting (\<lambda>f c. True)) (grid_of [0, 0]) ip0 ?n = Some (FAIL, n', ip0) \<and>
             \<not> futureComputed n'"
    using run_backward_potentials [OF h f, of ip0] by simp
  have "futureComputed n'"
    using run_backward_potentials [OF h t, of ip0] r by simp
  with r have 2: "\<exists>st n' ip'. run (env_of True counting (\<lambda>f c. True)) (grid_of [0, 0]) ip0 ?n =
             Some (st, n', ip') \<and> futureComputed n'"
    by blast
  from h f t 1 2 show ?thesis by (intro conjI)
qed

text \<open>
  The claim as stated, without the condition on the step limit, fails: with \<^verbatim>\<open>steps\<close> and the
  counter both 1 and a satisfiable future set, \<^verbatim>\<open>run()\<close> returns FAIL and \<^verbatim>\<open>futureComputed\<close>
  stays false.
\<close>

theorem run_backward_potentials_counterexample:
  "observations (node0\<lparr>observations := Some [], steps := 1, counter := 1\<rparr>) \<noteq> None \<and>
   \<not> search (node0\<lparr>observations := Some [], steps := 1, counter := 1\<rparr>) \<and>
   \<not> futureComputed (node0\<lparr>observations := Some [], steps := 1, counter := 1\<rparr>) \<and>
   fst (computeFutureSetPresent (env_of True counting (\<lambda>f c. True))
     (future (node0\<lparr>observations := Some [], steps := 1, counter := 1\<rparr>)) (state (grid_of [0, 0])) []) \<and>
   run (env_of True counting (\<lambda>f c. True)) (grid_of [0, 0]) ip0
     (node0\<lparr>observations := Some [], steps := 1, counter := 1\<rparr>) =
     Some (FAIL, node0\<lparr>observations := Some [], steps := 1, counter := 1\<rparr>, ip0) \<and>
   \<not> futureComputed (node0\<lparr>observations := Some [], steps := 1, counter := 1\<rparr>)"
  by (simp add: node0_def env_of_def run_def run_traced_def Let_def)

subsection \<open>Resuming the search generator\<close>

text \<open>
  Claim C6 says that one call of \<^verbatim>\<open>run()\<close> advances the search generator by at most 256
  iterations. The code resumes it once before the loop of 256 iterations and never looks
  at that first result: a generator that counts its resumptions, resumed from 0, is left at
  257 by a single call, which returns HALT with the payload 256. For the same reason a
  generator that returns its trajectory at the first resumption is resumed again, and the
  call fails with no trajectory.
\<close>

theorem run_search_resumes_257:
  "resume counting 0 = (Yield 256, 257) \<and>
   (case run (env_of True counting (\<lambda>f c. True)) (grid_of [0, 0]) ip0
           (node0\<lparr>observations := Some [], search := True, searching := Some 0\<rparr>) of
      None \<Rightarrow> False
    | Some (st, n', ip') \<Rightarrow> st = HALT \<and> searching n' = Some 257 \<and> visited n' = 256) \<and>
   (case run (env_of True finishing (\<lambda>f c. True)) (grid_of [0, 0]) ip0
           (node0\<lparr>observations := Some [], search := True, searching := Some 0\<rparr>) of
      None \<Rightarrow> False
    | Some (st, n', ip') \<Rightarrow> st = FAIL \<and> trajectory n' = None \<and> searchTries n' = 1)"
  by code_simp


text \<open>
  Claim C7. In a call of \<^verbatim>\<open>run()\<close> on a node with fields, every field whose \<^verbatim>\<open>compute\<close> is
  called is present and is computed because the counter is 0 or because it recomputes;
  if the computation of an essential field fails, \<^verbatim>\<open>run()\<close> returns FAIL; and if some field
  was computed and none succeeded, \<^verbatim>\<open>run()\<close> returns FAIL.
\<close>

theorem run_fields_policy:
  assumes "run_traced env g ip n = Some (st, n', ip', cs)" and "fields_arr n = Some fs"
  shows "(\<forall>(c, ok) \<in> set cs.
            c < length fs \<and> (\<exists>f. fs ! c = Some f \<and> (counter n = 0 \<or> recompute f))) \<and>
         ((\<exists>(c, ok) \<in> set cs. \<not> ok \<and> (\<exists>f. fs ! c = Some f \<and> essential f)) \<longrightarrow> st = FAIL) \<and>
         (cs \<noteq> [] \<and> (\<forall>(c, ok) \<in> set cs. \<not> ok) \<longrightarrow> st = FAIL)"
proof (cases "cs = []")
  case True
  then show ?thesis by simp
next
  case False
  let ?n0 = "n\<lparr>last_fired := replicate (length (last_fired n)) 0\<rparr>"
  from assms(1) False have rb: "run_body env g ip ?n0 = Some (st, n', ip', cs)"
    by (auto simp: run_traced_def Let_def split: if_splits)
  then obtain r n1 ip1 where ob: "observe env g ip ?n0 = Some (r, n1, ip1)"
    by (auto simp: run_body_def split: option.splits)
  with rb False have "r = None" by (cases r) (auto simp: run_body_def)
  with rb ob obtain n2 where rm: "refresh_matches g ip1 n1 = Some n2"
    and rf: "run_fields env g n2 = Some (st, n', cs)"
    by (auto simp: run_body_def split: option.splits)
  have fa: "fields_arr n2 = Some fs" and cn: "counter n2 = counter n"
    using same_rest_sel(2,3) [OF refresh_matches_same_rest [OF rm]] observe_sel(1,2) [OF ob] assms(2)
    by simp_all
  from rf fa obtain res pot where
    fl: "fields_loop env g (counter n) fs 0 False False (potentials n2) [] = Some (res, pot, cs)"
    and st: "st = (case res of Inl u \<Rightarrow> FAIL
                   | Inr (as, ac) \<Rightarrow> if ac \<and> \<not> as then FAIL else SUCCESS)"
    by (auto simp: run_fields_def cn split: option.splits sum.splits prod.splits if_splits)
  from fields_loop_spec [OF fl] have
    ok: "\<forall>e \<in> set cs. computed_ok (counter n) (res = Inl ()) fs 0 e"
    and fl: "(case res of
              Inl u \<Rightarrow> True
            | Inr (as', ac') \<Rightarrow> (as' \<longleftrightarrow> (\<exists>e \<in> set cs. snd e)) \<and> (ac' \<longleftrightarrow> cs \<noteq> []))"
    by (auto split: sum.splits)
  have 1: "\<forall>(c, ok) \<in> set cs.
            c < length fs \<and> (\<exists>f. fs ! c = Some f \<and> (counter n = 0 \<or> recompute f))"
    using ok by (auto simp: computed_ok_def)
  have 2: "st = FAIL" if "\<exists>(c, ok) \<in> set cs. \<not> ok \<and> (\<exists>f. fs ! c = Some f \<and> essential f)"
  proof -
    from that ok have "res = Inl ()" by (auto simp: computed_ok_def)
    then show ?thesis by (simp add: st)
  qed
  have 3: "st = FAIL" if "\<forall>(c, ok) \<in> set cs. \<not> ok"
    using that fl False by (auto simp: st split: sum.splits)
  from 1 2 3 show ?thesis by blast
qed

text \<open>A first run in which the only field is essential and its computation fails.\<close>

theorem run_fields_policy_witness:
  "fields_arr node_f = Some [Some \<lparr>recompute = False, essential = True\<rparr>, None] \<and>
   (\<exists>st n' ip'. run_traced (env_of True counting (\<lambda>f c. False)) (grid_of [0, 0]) ip0 node_f =
        Some (st, n', ip', [(0, False)]) \<and> st = FAIL)"
proof -
  have f: "fields_arr node_f = Some [Some \<lparr>recompute = False, essential = True\<rparr>, None]"
    by (simp add: node_f_def)
  have "(case run_traced (env_of True counting (\<lambda>f c. False)) (grid_of [0, 0]) ip0 node_f of
           None \<Rightarrow> False | Some (st, n', ip', cs) \<Rightarrow> cs = [(0, False)])"
    by code_simp
  then obtain st n' ip' where
    r: "run_traced (env_of True counting (\<lambda>f c. False)) (grid_of [0, 0]) ip0 node_f =
          Some (st, n', ip', [(0, False)])"
    by (auto split: option.splits)
  from run_fields_policy [OF r f] have "st = FAIL" by simp
  with r f show ?thesis by blast
qed


text \<open>
  Claim C8. In search mode, when the generator completes in a call of \<^verbatim>\<open>run()\<close> and
  \<^verbatim>\<open>Array2D.from\<close> gives no trajectory, the call returns FAIL, \<^verbatim>\<open>futureComputed\<close> stays false
  and \<^verbatim>\<open>searchTries\<close> is incremented. No operation of the node reads \<^verbatim>\<open>searchTries\<close>: \<^verbatim>\<open>run\<close>,
  \<^verbatim>\<open>reset\<close> and \<^verbatim>\<open>load\<close> on a node with another value of the counter do the same, and only
  the counter of the resulting node differs, by the same amount.
\<close>

theorem run_search_exhausted:
  assumes "observations n = Some obs" and "search n" and "\<not> futureComputed n"
    and "\<not> (0 < steps n \<and> steps n \<le> counter n)"
    and "start_search env g ip obs (n\<lparr>last_fired := replicate (length (last_fired n)) 0\<rparr>) =
           Inr (gen, n1, ip1)"
    and "resume (gen_next env) gen = (Return v, gen')"
    and "Array2D_from env v = None"
  shows "(\<exists>n'. run env g ip n = Some (FAIL, n', ip1) \<and> \<not> futureComputed n' \<and>
               searchTries n' = searchTries n + 1) \<and>
         (\<forall>k. run env g ip (n\<lparr>searchTries := k\<rparr>) =
               map_option
                 (\<lambda>(st, m, ip'). (st, m\<lparr>searchTries := searchTries m - searchTries n + k\<rparr>, ip'))
                 (run env g ip n)) \<and>
         (\<forall>k. reset (n\<lparr>searchTries := k\<rparr>) = (reset n)\<lparr>searchTries := k\<rparr>) \<and>
         (\<forall>k lenv elem psym g'. load lenv elem psym g' (n\<lparr>searchTries := k\<rparr>) =
               map_option (\<lambda>(res, m). (res, m\<lparr>searchTries := k\<rparr>)) (load lenv elem psym g' n))"
proof -
  let ?n0 = "n\<lparr>last_fired := replicate (length (last_fired n)) 0\<rparr>"
  have n1: "futureComputed n1 = futureComputed n" "searchTries n1 = searchTries n"
    using assms(5)
    by (auto simp: start_search_def Let_def split: option.splits prod.splits if_splits)
  have "observe env g ip ?n0 =
      Some (Some FAIL, n1\<lparr>searching := None, trajectory := None, searchTries := searchTries n1 + 1\<rparr>, ip1)"
    using assms by (simp add: observe_def)
  then have "run env g ip n =
      Some (FAIL, n1\<lparr>searching := None, trajectory := None, searchTries := searchTries n1 + 1\<rparr>, ip1)"
    using assms(4) by (simp add: run_def run_traced_past_limit run_body_def)
  then have 1: "\<exists>n'. run env g ip n = Some (FAIL, n', ip1) \<and> \<not> futureComputed n' \<and>
               searchTries n' = searchTries n + 1"
    using n1 assms(3) by simp
  have 3: "reset (n\<lparr>searchTries := k\<rparr>) = (reset n)\<lparr>searchTries := k\<rparr>" for k
    by (simp add: reset_def)
  from 1 3 show ?thesis by (simp add: run_searchTries load_searchTries)
qed

text \<open>A search whose generator returns at once without a trajectory.\<close>

theorem run_search_exhausted_witness:
  "observations (node0\<lparr>observations := Some [], search := True\<rparr>) = Some [] \<and>
   search (node0\<lparr>observations := Some [], search := True\<rparr>) \<and>
   \<not> futureComputed (node0\<lparr>observations := Some [], search := True\<rparr>) \<and>
   \<not> (0 < steps (node0\<lparr>observations := Some [], search := True\<rparr>) \<and>
      steps (node0\<lparr>observations := Some [], search := True\<rparr>)
        \<le> counter (node0\<lparr>observations := Some [], search := True\<rparr>)) \<and>
   resume (gen_next (env_of True exhausted (\<lambda>f c. True))) 0 = (Return None, 2) \<and>
   Array2D_from (env_of True exhausted (\<lambda>f c. True)) None = None \<and>
   (\<exists>n'. run (env_of True exhausted (\<lambda>f c. True)) (grid_of [0, 0]) ip0
           (node0\<lparr>observations := Some [], search := True\<rparr>) = Some (FAIL, n', ip0) \<and>
         \<not> futureComputed n' \<and>
         searchTries n' = searchTries (node0\<lparr>observations := Some [], search := True\<rparr>) + 1)"
proof -
  let ?n = "node0\<lparr>observations := Some [], search := True\<rparr>"
  let ?env = "env_of True exhausted (\<lambda>f c. True)"
  have h: "observations ?n = Some []" "search ?n" "\<not> futureComputed ?n"
    "\<not> (0 < steps ?n \<and> steps ?n \<le> counter ?n)"
    by (simp_all add: node0_def)
  have s: "start_search ?env (grid_of [0, 0]) ip0 [] (?n\<lparr>last_fired := replicate (length (last_fired ?n)) 0\<rparr>) =
       Inr (0, ?n\<lparr>last_fired := replicate (length (last_fired ?n)) 0, future := [], trajectory := None,
                  searching := Some 0\<rparr>, ip0\<lparr>rng := ()\<rparr>)"
    by (simp add: start_search_def env_of_def node0_def)
  have i: "ip0\<lparr>rng := ()\<rparr> = ip0" by (simp add: ip0_def)
  have r: "resume (gen_next ?env) 0 = (Return None, 2)"
    by (simp add: env_of_def resume_def exhausted_def numeral_nat)
  have a: "Array2D_from ?env None = None" by (simp add: env_of_def)
  have c: "\<exists>n'. run ?env (grid_of [0, 0]) ip0 ?n = Some (FAIL, n', ip0) \<and>
         \<not> futureComputed n' \<and> searchTries n' = searchTries ?n + 1"
    using run_search_exhausted [OF h s [unfolded i] r a] by (rule conjunct1)
  from h r a c show ?thesis by (intro conjI)
qed

text \<open>
  Claim C10. When \<^verbatim>\<open>load\<close> succeeds on an element with \<^verbatim>\<open>observe\<close> children, search mode is
  enabled exactly if the attribute \<^verbatim>\<open>search\<close> is the string \<^verbatim>\<open>True\<close>. Otherwise the node has
  a potentials buffer, and the observation block of \<^verbatim>\<open>run()\<close> on the node after \<^verbatim>\<open>reset()\<close>
  is the mode of backward potentials: FAIL on an unsatisfiable future set, else
  \<^verbatim>\<open>computeBackwardPotentials\<close>.
\<close>

theorem load_search_mode:
  assumes "load lenv elem psym g n = Some (LoadTrue, n')"
    and "childrenByTag lenv elem ''observe'' \<noteq> []"
  shows "(search n' \<longleftrightarrow> getAttribute lenv elem ''search'' = Some ''True'') \<and>
         observations n' \<noteq> None \<and>
         (\<not> search n' \<longrightarrow>
            potentials n' \<noteq> None \<and>
            observe env g' ip (reset n') =
              (case computeFutureSetPresent env (future n') (state g') (the (observations n')) of
                 (ok, fut) \<Rightarrow>
                   if \<not> ok then Some (Some FAIL, (reset n')\<lparr>future := fut\<rparr>, ip)
                   else Some (None,
                              (reset n')\<lparr>future := fut, futureComputed := True,
                                potentials := computeBackwardPotentials env (potentials n') fut
                                                (MX g') (MY g') (MZ g') (rules n')\<rparr>,
                              ip)))"
proof -
  from load_true [OF assms(1)] obtain rl n2 where
    "load_observe_block lenv elem g n2 = Some n'"
    by blast
  note b = load_observe_block_search [OF this assms(2)]
  from b(2) obtain obs where obs: "observations n' = Some obs" by auto
  have "observe env g' ip (reset n') =
              (case computeFutureSetPresent env (future n') (state g') (the (observations n')) of
                 (ok, fut) \<Rightarrow>
                   if \<not> ok then Some (Some FAIL, (reset n')\<lparr>future := fut\<rparr>, ip)
                   else Some (None,
                              (reset n')\<lparr>future := fut, futureComputed := True,
                                potentials := computeBackwardPotentials env (potentials n') fut
                                                (MX g') (MY g') (MZ g') (rules n')\<rparr>,
                              ip))" if "\<not> search n'"
    using that obs by (simp add: observe_def reset_def split: prod.splits)
  with b show ?thesis by blast
qed

text \<open>The element of the examples with \<^verbatim>\<open>search="true"\<close> and with \<^verbatim>\<open>search="True"\<close>.\<close>

theorem load_search_mode_witness:
  "childrenByTag (lenv_of (Some ''true'')) 0 ''observe'' \<noteq> [] \<and>
   childrenByTag (lenv_of (Some ''True'')) 0 ''observe'' \<noteq> [] \<and>
   (\<exists>n'. load (lenv_of (Some ''true'')) 0 () (grid_of [0, 0]) node0 = Some (LoadTrue, n') \<and>
         \<not> search n' \<and> potentials n' \<noteq> None \<and> observations n' \<noteq> None) \<and>
   (\<exists>n'. load (lenv_of (Some ''True'')) 0 () (grid_of [0, 0]) node0 = Some (LoadTrue, n') \<and>
         search n')"
proof -
  have c: "childrenByTag (lenv_of (Some ''true'')) 0 ''observe'' \<noteq> []"
    "childrenByTag (lenv_of (Some ''True'')) 0 ''observe'' \<noteq> []"
    by (simp_all add: lenv_of_def)
  have a: "getAttribute (lenv_of (Some ''true'')) 0 ''search'' \<noteq> Some ''True''"
    "getAttribute (lenv_of (Some ''True'')) 0 ''search'' = Some ''True''"
    by (simp_all add: lenv_of_def)
  obtain n1 where n1: "load (lenv_of (Some ''true'')) 0 () (grid_of [0, 0]) node0 = Some (LoadTrue, n1)"
    by (simp add: load_def lenv_of_def load_field_block_def load_observe_block_def Let_def
        grid_of_def charCodeAt0_def array_put_def node0_def load_attributes_def)
  obtain n2 where n2: "load (lenv_of (Some ''True'')) 0 () (grid_of [0, 0]) node0 = Some (LoadTrue, n2)"
    by (simp add: load_def lenv_of_def load_field_block_def load_observe_block_def Let_def
        grid_of_def charCodeAt0_def array_put_def node0_def load_attributes_def)
  from load_search_mode [OF n1 c(1)] a(1)
  have 1: "\<not> search n1 \<and> potentials n1 \<noteq> None \<and> observations n1 \<noteq> None" by blast
  from load_search_mode [OF n2 c(2)] a(2)
  have 2: "search n2" by blast
  from c n1 n2 1 2 show ?thesis by blast
qed

subsection \<open>Appending to the match list\<close>

lemma shl_exact: "0 \<le> a \<Longrightarrow> a * 2 ^ k < 2147483648 \<Longrightarrow> shl a k = a * 2 ^ k"
  by (simp add: shl_def int32_def Let_def)

lemma u32_exact: "0 \<le> v \<Longrightarrow> v < 4294967296 \<Longrightarrow> u32 v = nat v"
  by (simp add: u32_def)

lemma write_match_spec:
  assumes "off = int (4 * c)" and "4 * c + 4 \<le> length b"
    and "int r < 4294967296" and "0 \<le> x" "x < 4294967296" and "0 \<le> y" "y < 4294967296"
    and "0 \<le> z" "z < 4294967296"
  shows "length (write_match b off r x y z) = length b"
    and "match_at (write_match b off r x y z) c = (r, x, y, z)"
    and "k < c \<Longrightarrow> match_at (write_match b off r x y z) k = match_at b k"
proof -
  have n4: "nat (4 * int c) = 4 * c" by (simp add: nat_mult_distrib)
  have w: "write_match b off r x y z =
      b[4 * c := r, 4 * c + 1 := nat x, 4 * c + 2 := nat y, 4 * c + 3 := nat z]"
    using assms
    by (simp add: write_match_def ta_set_def u32_exact nat_add_distrib n4)
  show "length (write_match b off r x y z) = length b" unfolding w by simp
  show "match_at (write_match b off r x y z) c = (r, x, y, z)"
    unfolding w using assms(2-) by (simp add: match_at_def)
  show "match_at (write_match b off r x y z) k = match_at b k" if "k < c"
    unfolding w using that assms(2-) by (simp add: match_at_def)
qed

lemma add_spec:
  assumes "buffer_ok n" and "matchCount n < 268435454"
    and "int r < 4294967296" and "0 \<le> x" "x < 4294967296" and "0 \<le> y" "y < 4294967296"
    and "0 \<le> z" "z < 4294967296"
  shows "\<exists>n'. add g r x y z n = Some n' \<and> extends g n [(r, x, y, z)] n'"
proof -
  let ?c = "matchCount n"
  let ?old = "matches n"
  let ?mask = "(matchMask n)(r := (matchMask n r)(x + y * MX g + z * MX g * MY g := True))"
  have off: "shl (int ?c) 2 = int (4 * ?c)"
    using assms(2) by (subst shl_exact) simp_all
  have le: "4 * ?c \<le> length ?old" using assms(1) by (simp add: buffer_ok_def)
  have mask: "?mask = mask_with g (matchMask n) [(r, x, y, z)]"
    by (auto simp: mask_with_def fun_eq_iff)
  have fin: "extends g n [(r, x, y, z)] (n\<lparr>matchMask := ?mask, matches := b, matchCount := ?c + 1\<rparr>)"
    if len: "4 * ?c + 4 \<le> length b"
      and at: "match_at b ?c = (r, x, y, z)"
      and old: "\<And>k. k < ?c \<Longrightarrow> match_at b k = match_at ?old k"
    for b
  proof -
    have "map (match_at b) [0..<?c + 1] = map (match_at ?old) [0..<?c] @ [(r, x, y, z)]"
      using at old by simp
    then show ?thesis
      using len unfolding extends_def
      by (simp add: match_list_def buffer_ok_def mask same_restI)
  qed
  show ?thesis
  proof (cases "int (4 * ?c) + 4 < int (length ?old)")
    case True
    let ?b = "write_match ?old (int (4 * ?c)) r x y z"
    have l: "4 * ?c + 4 \<le> length ?old" using True by simp
    have a: "add g r x y z n = Some (n\<lparr>matchMask := ?mask, matches := ?b, matchCount := ?c + 1\<rparr>)"
      using True by (simp add: add_def Let_def off)
    have "extends g n [(r, x, y, z)] (n\<lparr>matchMask := ?mask, matches := ?b, matchCount := ?c + 1\<rparr>)"
      using write_match_spec [OF refl l assms(3-9)] l by (intro fin) simp_all
    with a show ?thesis by blast
  next
    case False
    let ?ext = "?old @ replicate (length ?old + 8) 0"
    let ?b = "write_match ?ext (int (4 * ?c)) r x y z"
    have small: "int (length ?old) + 4 < 1073741824"
      using False assms(2) by simp
    have len: "shl (int (length ?old) + 4) (Suc 0) = 2 * int (length ?old) + 8"
      using small by (subst shl_exact) simp_all
    have n: "nat (2 * int (length ?old) + 8) - length ?old = length ?old + 8"
      by simp
    have a: "add g r x y z n = Some (n\<lparr>matchMask := ?mask, matches := ?b, matchCount := ?c + 1\<rparr>)"
      using False by (simp add: add_def Let_def off len n)
    have l: "4 * ?c + 4 \<le> length ?ext" using le by simp
    have o: "match_at ?ext k = match_at ?old k" if "k < ?c" for k
      using that le by (simp add: match_at_def nth_append)
    have "extends g n [(r, x, y, z)] (n\<lparr>matchMask := ?mask, matches := ?b, matchCount := ?c + 1\<rparr>)"
      using write_match_spec [OF refl l assms(3-9)] l o by (intro fin) simp_all
    with a show ?thesis by blast
  qed
qed

lemma mask_with_Nil [simp]: "mask_with g K [] = K"
  by (simp add: mask_with_def)

lemma mask_with_append: "mask_with g (mask_with g K E1) E2 = mask_with g K (E1 @ E2)"
  by (auto simp: mask_with_def fun_eq_iff)

lemma extends_refl: "buffer_ok n \<Longrightarrow> extends g n [] n"
  by (simp add: extends_def same_rest_refl)

lemma extends_trans:
  assumes "extends g a E1 b" and "extends g b E2 c"
  shows "extends g a (E1 @ E2) c"
  using assms unfolding extends_def
  by (auto simp: mask_with_append intro: same_rest_trans)

lemma extends_sel:
  assumes "extends g n E n'"
  shows "buffer_ok n'" and "matchCount n' = matchCount n + length E"
    and "match_list n' = match_list n @ E" and "rules n' = rules n"
    and "matchMask n' = mask_with g (matchMask n) E" and "same_rest n n'"
  using assms same_rest_sel(6) [of n n'] by (auto simp: extends_def)


lemma for_each_extends:
  assumes step: "\<And>x n. x \<in> set xs \<Longrightarrow> buffer_ok n \<Longrightarrow> P n \<Longrightarrow> matchCount n + length (E x) \<le> B
            \<Longrightarrow> \<exists>n'. body x n = Some n' \<and> extends g n (E x) n'"
    and pres: "\<And>n n'. P n \<Longrightarrow> same_rest n n' \<Longrightarrow> P n'"
  shows "buffer_ok n \<Longrightarrow> P n \<Longrightarrow> matchCount n + length (concat (map E xs)) \<le> B
           \<Longrightarrow> \<exists>n'. for_each body xs n = Some n' \<and> extends g n (concat (map E xs)) n'"
  using step
proof (induction xs arbitrary: n)
  case Nil
  then show ?case by (simp add: extends_refl)
next
  case (Cons x xs)
  have "matchCount n + length (E x) \<le> B" using Cons.prems(3) by simp
  with Cons.prems(1,2,4) obtain n1 where b: "body x n = Some n1" and e: "extends g n (E x) n1"
    by (meson list.set_intros(1))
  note s = extends_sel [OF e]
  have "P n1" using Cons.prems(2) s(6) by (rule pres)
  moreover have "matchCount n1 + length (concat (map E xs)) \<le> B"
    using Cons.prems(3) s(2) by simp
  moreover have "\<And>y m. y \<in> set xs \<Longrightarrow> buffer_ok m \<Longrightarrow> P m \<Longrightarrow> matchCount m + length (E y) \<le> B
            \<Longrightarrow> \<exists>n'. body y m = Some n' \<and> extends g m (E y) n'"
    using Cons.prems(4) by simp
  ultimately obtain n2 where r: "for_each body xs n1 = Some n2"
    and e2: "extends g n1 (concat (map E xs)) n2"
    using Cons.IH [OF s(1)] by blast
  from b r have "for_each body (x # xs) n = Some n2" by simp
  moreover from extends_trans [OF e e2] have "extends g n (concat (map E (x # xs))) n2" by simp
  ultimately show ?case by blast
qed

lemma for_stride_for_each:
  "0 < d \<Longrightarrow> for_stride x m d body s = for_each body (stride x m d) s"
proof (induction x m d body s rule: for_stride.induct)
  case (1 x m d body s)
  show ?case
  proof (cases "x < m")
    case False
    then show ?thesis by (simp add: for_stride.simps [of x] stride.simps [of x])
  next
    case True
    show ?thesis
    proof (cases "body x s")
      case None
      with True "1.prems" show ?thesis
        by (simp add: for_stride.simps [of x] stride.simps [of x])
    next
      case (Some s1)
      from "1.IH" [OF True _ Some] "1.prems"
      have "for_stride (x + d) m d body s1 = for_each body (stride (x + d) m d) s1" by simp
      with True Some "1.prems" show ?thesis
        by (simp add: for_stride.simps [of x] stride.simps [of x])
    qed
  qed
qed

lemma set_stride:
  "0 < d \<Longrightarrow> set (stride x m d) = {v. x \<le> v \<and> v < m \<and> d dvd (v - x)}"
proof (induction x m d rule: stride.induct)
  case (1 x m d)
  show ?case
  proof (cases "x < m")
    case False
    then show ?thesis by (auto simp: stride.simps [of x])
  next
    case True
    with "1.IH" "1.prems"
    have ih: "set (stride (x + d) m d) = {v. x + d \<le> v \<and> v < m \<and> d dvd (v - (x + d))}"
      by simp
    have "{v. x \<le> v \<and> v < m \<and> d dvd (v - x)} =
        insert x {v. x + d \<le> v \<and> v < m \<and> d dvd (v - (x + d))}"
    proof (intro set_eqI iffI)
      fix v assume "v \<in> {v. x \<le> v \<and> v < m \<and> d dvd (v - x)}"
      then have v: "x \<le> v" "v < m" "d dvd (v - x)" by auto
      show "v \<in> insert x {v. x + d \<le> v \<and> v < m \<and> d dvd (v - (x + d))}"
      proof (cases "v = x")
        case False
        with v(1) have "0 < v - x" by simp
        with v(3) have "d \<le> v - x" by (rule zdvd_imp_le)
        moreover have "d dvd (v - (x + d))"
          using dvd_diff [OF v(3) dvd_refl [of d]] by (simp add: algebra_simps)
        ultimately show ?thesis using v(2) by simp
      qed simp
    next
      fix v assume "v \<in> insert x {v. x + d \<le> v \<and> v < m \<and> d dvd (v - (x + d))}"
      then consider "v = x" | "x + d \<le> v" "v < m" "d dvd (v - (x + d))" by auto
      then show "v \<in> {v. x \<le> v \<and> v < m \<and> d dvd (v - x)}"
      proof cases
        case 1
        with True show ?thesis by simp
      next
        case 2
        have "d dvd (v - x)"
          using dvd_add [OF 2(3) dvd_refl [of d]] by (simp add: algebra_simps)
        then show ?thesis using 2 "1.prems" by simp
      qed
    qed
    with True "1.prems" ih show ?thesis by (simp add: stride.simps [of x])
  qed
qed

lemma distinct_stride: "0 < d \<Longrightarrow> distinct (stride x m d)"
proof (induction x m d rule: stride.induct)
  case (1 x m d)
  show ?case
  proof (cases "x < m")
    case False
    then show ?thesis by (simp add: stride.simps [of x])
  next
    case True
    with "1.IH" "1.prems" have "distinct (stride (x + d) m d)" by simp
    moreover have "x \<notin> set (stride (x + d) m d)"
      using "1.prems" by (simp add: set_stride)
    ultimately show ?thesis using True "1.prems" by (simp add: stride.simps [of x])
  qed
qed

subsection \<open>The full rescan appends its matches\<close>

lemma cell_index_bounds:
  fixes mx my mz x y z :: int
  assumes "0 < mx" "0 < my" "0 \<le> x" "x < mx" "0 \<le> y" "y < my" "0 \<le> z" "z < mz"
  shows "0 \<le> x + y * mx + z * mx * my" and "x + y * mx + z * mx * my < mx * my * mz"
proof -
  have p: "0 < mx * my" using assms by simp
  have "0 \<le> y * mx" "0 \<le> z * (mx * my)" using assms by simp_all
  then show "0 \<le> x + y * mx + z * mx * my" using assms(3) by (simp add: mult.assoc)
  have "y * mx \<le> (my - 1) * mx" using assms by (intro mult_right_mono) simp_all
  then have a: "x + y * mx \<le> mx * my - 1" using assms(4) by (simp add: algebra_simps)
  have "z * (mx * my) \<le> (mz - 1) * (mx * my)" using assms p by (intro mult_right_mono) simp_all
  then have "z * (mx * my) \<le> mx * my * mz - mx * my" by (simp add: algebra_simps)
  with a show "x + y * mx + z * mx * my < mx * my * mz" by (simp add: mult.assoc)
qed

lemma cell_index_inj:
  fixes mx my x y z x' y' z' :: int
  assumes "0 \<le> x" "x < mx" "0 \<le> y" "y < my" "0 \<le> x'" "x' < mx" "0 \<le> y'" "y' < my"
    and "x + y * mx + z * mx * my = x' + y' * mx + z' * mx * my"
  shows "x = x' \<and> y = y' \<and> z = z'"
proof -
  have e: "x + (y + z * my) * mx = x' + (y' + z' * my) * mx"
    using assms(9) by (simp add: algebra_simps)
  have "(x + (y + z * my) * mx) mod mx = x" using assms by simp
  moreover have "(x' + (y' + z' * my) * mx) mod mx = x'" using assms by simp
  ultimately have x: "x = x'" using e by simp
  have mx: "mx \<noteq> 0" using assms by auto
  from e x have "(y + z * my) * mx = (y' + z' * my) * mx" by simp
  with mx have e2: "y + z * my = y' + z' * my" by simp
  have "(y + z * my) mod my = y" using assms by simp
  moreover have "(y' + z' * my) mod my = y'" using assms by simp
  ultimately have y: "y = y'" using e2 by simp
  have my: "my \<noteq> 0" using assms by auto
  from e2 y my have "z = z'" by simp
  with x y show ?thesis by simp
qed

lemma state_at_in_grid:
  assumes "grid_wf g" and "0 \<le> x" "x < MX g" "0 \<le> y" "y < MY g" "0 \<le> z" "z < MZ g"
  shows "state_at g (x + y * MX g + z * MX g * MY g) =
           Some (state g ! nat (x + y * MX g + z * MX g * MY g))"
    and "state g ! nat (x + y * MX g + z * MX g * MY g) < C g"
proof -
  from assms(1) have wf: "0 < MX g" "0 < MY g" "int (length (state g)) = MX g * MY g * MZ g"
    "\<forall>v \<in> set (state g). v < C g"
    by (auto simp: grid_wf_def list_all_iff)
  note b = cell_index_bounds [OF wf(1,2) assms(2-7)]
  from b wf(3) show "state_at g (x + y * MX g + z * MX g * MY g) =
           Some (state g ! nat (x + y * MX g + z * MX g * MY g))"
    by (simp add: state_at_def)
  from b wf(3) have "nat (x + y * MX g + z * MX g * MY g) < length (state g)" by linarith
  then show "state g ! nat (x + y * MX g + z * MX g * MY g) < C g"
    using wf(4) by simp
qed

lemma le_mult_right: "(0::int) \<le> a \<Longrightarrow> 1 \<le> b \<Longrightarrow> a \<le> a * b"
  using mult_left_mono [of 1 b a] by simp

lemma le_mult_left: "(0::int) \<le> b \<Longrightarrow> 1 \<le> a \<Longrightarrow> b \<le> a * b"
  using mult_right_mono [of 1 a b] by simp

lemma fits_small:
  assumes "grid_wf g" and "fits_buffer g rs" and "r < length rs"
  shows "MX g < 4294967296" "MY g < 4294967296" "MZ g < 4294967296" "int r < 4294967296"
proof -
  from assms(1) have wf: "1 \<le> MX g" "1 \<le> MY g" "1 \<le> MZ g" by (auto simp: grid_wf_def)
  from assms(3) have R: "1 \<le> int (length rs)" by simp
  have b: "int (length rs) * MX g * MY g * MZ g \<le> 268435454"
    using assms(2) by (simp add: fits_buffer_def)
  have p1: "1 \<le> int (length rs) * MX g" using R wf(1) le_mult_right [of "int (length rs)" "MX g"] by simp
  have p2: "1 \<le> int (length rs) * MX g * MY g"
    using p1 wf(2) le_mult_right [of "int (length rs) * MX g" "MY g"] by simp
  have 1: "int (length rs) \<le> int (length rs) * MX g" using R wf(1) by (intro le_mult_right) simp_all
  have 2: "int (length rs) * MX g \<le> int (length rs) * MX g * MY g"
    using p1 wf by (intro le_mult_right) simp_all
  have 3: "int (length rs) * MX g * MY g \<le> int (length rs) * MX g * MY g * MZ g"
    using p2 wf by (intro le_mult_right) simp_all
  have "MX g \<le> int (length rs) * MX g" using R wf(1) by (intro le_mult_left) simp_all
  with 2 3 b show "MX g < 4294967296" by linarith
  have "MY g \<le> int (length rs) * MX g * MY g" using p1 wf by (intro le_mult_left) simp_all
  with 3 b show "MY g < 4294967296" by linarith
  have "MZ g \<le> int (length rs) * MX g * MY g * MZ g" using p2 wf by (intro le_mult_left) simp_all
  with b show "MZ g < 4294967296" by linarith
  from 1 2 3 b assms(3) show "int r < 4294967296" by linarith
qed


lemma scan_cell_extends:
  assumes wf: "grid_wf g" "rule_wf g rule"
    and sm: "MX g < 4294967296" "MY g < 4294967296" "MZ g < 4294967296" "int r < 4294967296"
    and cell: "0 \<le> x" "x < MX g" "0 \<le> y" "y < MY g" "0 \<le> z" "z < MZ g"
    and n: "buffer_ok n" "matchCount n + length (cell_entries g r rule x y z) \<le> 268435454"
  shows "\<exists>n'. scan_cell g r rule x y z n = Some n' \<and> extends g n (cell_entries g r rule x y z) n'"
proof -
  let ?v = "state g ! nat (x + y * MX g + z * MX g * MY g)"
  let ?E = "\<lambda>s. case s of (a, b, c) \<Rightarrow>
        if \<not> out_of_bounds g rule (x - a) (y - b) (z - c) \<and> grid_matches g rule (x - a) (y - b) (z - c)
        then [(r, x - a, y - b, z - c)] else []"
  let ?body = "\<lambda>(shiftx, shifty, shiftz) n.
             let sx = x - shiftx; sy = y - shifty; sz = z - shiftz
             in if out_of_bounds g rule sx sy sz then Some n
                else if grid_matches g rule sx sy sz then add g r sx sy sz n
                else Some n"
  from wf(2) have rw: "0 < IMX rule" "0 < IMY rule" "0 < IMZ rule" "length (ishifts rule) = C g"
    by (auto simp: rule_wf_def ishifts_ok_def)
  note st = state_at_in_grid [OF wf(1) cell]
  have sh: "shifts_at rule (state_at g (x + y * MX g + z * MX g * MY g)) = Some (ishifts rule ! ?v)"
    using st rw(4) by (simp add: shifts_at_def)
  have ce: "cell_entries g r rule x y z = concat (map ?E (ishifts rule ! ?v))"
    by (simp add: cell_entries_def shift_entries_def)
  have "\<exists>n'. for_each ?body (ishifts rule ! ?v) n = Some n' \<and>
          extends g n (concat (map ?E (ishifts rule ! ?v))) n'"
  proof (rule for_each_extends [where P = "\<lambda>_. True" and B = 268435454])
    fix s :: cell and m :: "('a, 'b, 'c, 'd) node"
    assume m: "buffer_ok m" "matchCount m + length (?E s) \<le> 268435454"
    obtain a b c where s: "s = (a, b, c)" by (cases s)
    show "\<exists>n'. ?body s m = Some n' \<and> extends g m (?E s) n'"
    proof (cases "\<not> out_of_bounds g rule (x - a) (y - b) (z - c) \<and>
        grid_matches g rule (x - a) (y - b) (z - c)")
      case False
      then show ?thesis using m(1) by (auto simp: s Let_def extends_refl)
    next
      case True
      then have ib: "0 \<le> x - a" "x - a < 4294967296" "0 \<le> y - b" "y - b < 4294967296"
        "0 \<le> z - c" "z - c < 4294967296"
        using rw sm by (auto simp: out_of_bounds_def)
      have "matchCount m < 268435454" using m(2) True by (simp add: s)
      from add_spec [OF m(1) this sm(4) ib, of g] True show ?thesis
        by (simp add: s Let_def)
    qed
  qed (use n in \<open>simp_all add: ce\<close>)
  then show ?thesis by (simp add: scan_cell_def sh ce)
qed

lemma stride_in_grid:
  assumes "0 < d" and "v \<in> set (stride (d - 1) m d)"
  shows "0 \<le> v" and "v < m"
  using assms by (auto simp: set_stride)

lemma for_stride_for_each_fun:
  "0 < d \<Longrightarrow> for_stride x m d body = for_each body (stride x m d)"
  by (rule ext) (simp add: for_stride_for_each)

lemma scan_rule_extends:
  assumes wf: "grid_wf g" "rule_wf g rule"
    and sm: "MX g < 4294967296" "MY g < 4294967296" "MZ g < 4294967296" "int r < 4294967296"
    and n: "buffer_ok n" "matchCount n + length (rule_entries g r rule) \<le> 268435454"
  shows "\<exists>n'. for_stride (IMZ rule - 1) (MZ g) (IMZ rule) (\<lambda>z.
             for_stride (IMY rule - 1) (MY g) (IMY rule) (\<lambda>y.
               for_stride (IMX rule - 1) (MX g) (IMX rule) (\<lambda>x.
                 scan_cell g r rule x y z))) n = Some n' \<and>
           extends g n (rule_entries g r rule) n'"
proof -
  from wf(2) have rw: "0 < IMX rule" "0 < IMY rule" "0 < IMZ rule"
    by (auto simp: rule_wf_def)
  let ?xs = "stride (IMX rule - 1) (MX g) (IMX rule)"
  let ?ys = "stride (IMY rule - 1) (MY g) (IMY rule)"
  let ?zs = "stride (IMZ rule - 1) (MZ g) (IMZ rule)"
  let ?Ex = "\<lambda>z y x. cell_entries g r rule x y z"
  let ?Ey = "\<lambda>z y. concat (map (?Ex z y) ?xs)"
  let ?Ez = "\<lambda>z. concat (map (?Ey z) ?ys)"
  have row: "\<exists>n'. for_each (\<lambda>x. scan_cell g r rule x y z) ?xs m = Some n' \<and> extends g m (?Ey z y) n'"
    if "0 \<le> y" "y < MY g" "0 \<le> z" "z < MZ g" "buffer_ok m"
      "matchCount m + length (?Ey z y) \<le> 268435454" for y z and m :: "('a, 'b, 'c, 'd) node"
  proof (rule for_each_extends [where P = "\<lambda>_. True" and B = 268435454])
    fix x and k :: "('a, 'b, 'c, 'd) node"
    assume "x \<in> set ?xs" "buffer_ok k" "matchCount k + length (?Ex z y x) \<le> 268435454"
    with stride_in_grid [OF rw(1)] that show
      "\<exists>n'. scan_cell g r rule x y z k = Some n' \<and> extends g k (?Ex z y x) n'"
      by (intro scan_cell_extends [OF wf sm]) auto
  qed (use that in simp_all)
  have plane: "\<exists>n'. for_each (\<lambda>y. for_each (\<lambda>x. scan_cell g r rule x y z) ?xs) ?ys m = Some n' \<and>
         extends g m (?Ez z) n'"
    if "0 \<le> z" "z < MZ g" "buffer_ok m"
      "matchCount m + length (?Ez z) \<le> 268435454" for z and m :: "('a, 'b, 'c, 'd) node"
  proof (rule for_each_extends [where P = "\<lambda>_. True" and B = 268435454])
    fix y and k :: "('a, 'b, 'c, 'd) node"
    assume "y \<in> set ?ys" "buffer_ok k" "matchCount k + length (?Ey z y) \<le> 268435454"
    with stride_in_grid [OF rw(2)] that show
      "\<exists>n'. for_each (\<lambda>x. scan_cell g r rule x y z) ?xs k = Some n' \<and> extends g k (?Ey z y) n'"
      by (intro row) auto
  qed (use that in simp_all)
  have "\<exists>n'. for_each (\<lambda>z. for_each (\<lambda>y. for_each (\<lambda>x. scan_cell g r rule x y z) ?xs) ?ys) ?zs n
         = Some n' \<and> extends g n (concat (map ?Ez ?zs)) n'"
  proof (rule for_each_extends [where P = "\<lambda>_. True" and B = 268435454])
    fix z and k :: "('a, 'b, 'c, 'd) node"
    assume "z \<in> set ?zs" "buffer_ok k" "matchCount k + length (?Ez z) \<le> 268435454"
    with stride_in_grid [OF rw(3)] show
      "\<exists>n'. for_each (\<lambda>y. for_each (\<lambda>x. scan_cell g r rule x y z) ?xs) ?ys k = Some n' \<and>
         extends g k (?Ez z) n'"
      by (intro plane) auto
  qed (use n in \<open>simp_all add: rule_entries_def\<close>)
  then show ?thesis
    using rw by (simp add: for_stride_for_each_fun rule_entries_def)
qed

lemma full_rescan_extends:
  assumes wf: "grid_wf g" "\<forall>rule \<in> set (rules n). rule_wf g rule"
    and fit: "fits_buffer g (rules n)"
    and len: "length (full_entries g (rules n)) \<le> 268435454"
  shows "\<exists>n'. full_rescan g n = Some n' \<and>
           extends g (n\<lparr>matchCount := 0\<rparr>) (full_entries g (rules n)) n'"
proof -
  let ?rs = "rules n"
  let ?body = "\<lambda>r n.
        let rule = rules n ! r
        in for_stride (IMZ rule - 1) (MZ g) (IMZ rule) (\<lambda>z.
             for_stride (IMY rule - 1) (MY g) (IMY rule) (\<lambda>y.
               for_stride (IMX rule - 1) (MX g) (IMX rule) (\<lambda>x.
                 scan_cell g r rule x y z))) n"
  have "\<exists>n'. for_each ?body [0..<length ?rs] (n\<lparr>matchCount := 0\<rparr>) = Some n' \<and>
          extends g (n\<lparr>matchCount := 0\<rparr>)
            (concat (map (\<lambda>r. rule_entries g r (?rs ! r)) [0..<length ?rs])) n'"
  proof (rule for_each_extends [where P = "\<lambda>m. rules m = ?rs" and B = 268435454])
    fix r and m :: "('a, 'b, 'c, 'd) node"
    assume r: "r \<in> set [0..<length ?rs]" and m: "buffer_ok m" "rules m = ?rs"
      "matchCount m + length (rule_entries g r (?rs ! r)) \<le> 268435454"
    from r have rl: "r < length ?rs" by simp
    then have rw: "rule_wf g (?rs ! r)" using wf(2) by simp
    from scan_rule_extends [OF wf(1) rw fits_small [OF wf(1) fit rl] m(1,3)]
    show "\<exists>n'. ?body r m = Some n' \<and> extends g m (rule_entries g r (?rs ! r)) n'"
      by (simp add: Let_def m(2))
  next
    fix m m' :: "('a, 'b, 'c, 'd) node"
    assume "rules m = ?rs" "same_rest m m'"
    then show "rules m' = ?rs" using same_rest_sel(6) by metis
  qed (use len in \<open>simp_all add: buffer_ok_def full_entries_def match_list_def\<close>)
  then show ?thesis by (simp add: full_rescan_def full_entries_def)
qed

subsection \<open>The matches of the full rescan\<close>

lemma corner_bounds:
  assumes "0 < d"
  shows "s \<le> corner d s" and "corner d s < s + d" and "d dvd (corner d s - (d - 1))"
proof -
  show "s \<le> corner d s" using assms by (simp add: corner_def)
  show "corner d s < s + d" using assms by (simp add: corner_def)
  have "corner d s - (d - 1) = (d - 1 - s) mod d - (d - 1 - s)" by (simp add: corner_def)
  also have "\<dots> = - (d * ((d - 1 - s) div d))" by (simp add: minus_mult_div_eq_mod [symmetric])
  finally show "d dvd (corner d s - (d - 1))" by simp
qed

lemma corner_ge:
  assumes "0 < d" and "0 \<le> s"
  shows "d - 1 \<le> corner d s"
proof (rule ccontr)
  assume "\<not> d - 1 \<le> corner d s"
  then have neg: "0 < (d - 1) - corner d s" by simp
  have "d dvd ((d - 1) - corner d s)"
    using corner_bounds(3) [OF assms(1), of s] by (simp add: dvd_diff_commute)
  then have "d \<le> (d - 1) - corner d s" using neg by (rule zdvd_imp_le)
  with corner_bounds(1) [OF assms(1), of s] assms(2) show False by simp
qed

lemma corner_of_visited:
  assumes "0 < d" and "d dvd (x - (d - 1))" and "0 \<le> a" and "a < d"
  shows "corner d (x - a) = x"
proof -
  from assms(2) obtain k where k: "x - (d - 1) = d * k" by (auto simp: dvd_def)
  have "d - 1 - (x - a) = a + d * (- k)" using k by (simp add: algebra_simps)
  then have "(d - 1 - (x - a)) mod d = a mod d" by (simp only: mod_mult_self2)
  then show ?thesis using assms(3,4) by (simp add: corner_def)
qed

lemma corner_in_stride:
  assumes "0 < d" and "0 \<le> s" and "s + d \<le> m"
  shows "corner d s \<in> set (stride (d - 1) m d)"
  using corner_bounds [OF assms(1), of s] corner_ge [OF assms(1,2)] assms
  by (simp add: set_stride)

lemma set_upto_less: "set [0..n - 1] = {v. 0 \<le> v \<and> v < n}" for n :: int
  by auto

lemma grid_matches_iff:
  "grid_matches g rule x y z \<longleftrightarrow>
     (\<forall>i j k. 0 \<le> i \<and> i < IMX rule \<and> 0 \<le> j \<and> j < IMY rule \<and> 0 \<le> k \<and> k < IMZ rule \<longrightarrow>
        (input rule ! nat (i + j * IMX rule + k * IMX rule * IMY rule))
          AND push_bit (state g ! nat ((x + i) + (y + j) * MX g + (z + k) * MX g * MY g)) 1 \<noteq> 0)"
  unfolding grid_matches_def list_all_iff set_upto_less by blast

lemma set_shifts_of:
  "set (shifts_of rule v) =
     {(x, y, z). 0 \<le> x \<and> x < IMX rule \<and> 0 \<le> y \<and> y < IMY rule \<and> 0 \<le> z \<and> z < IMZ rule \<and>
        (input rule ! nat (x + y * IMX rule + z * IMX rule * IMY rule)) AND push_bit v 1 \<noteq> 0}"
  unfolding shifts_of_def by (auto simp: set_upto_less split: if_splits)

lemma ishifts_set:
  assumes "rule_wf g rule" and "v < C g"
  shows "distinct (ishifts rule ! v)" and "set (ishifts rule ! v) = set (shifts_of rule v)"
  using assms by (auto simp: rule_wf_def ishifts_ok_def list_all_iff)

lemma in_shift_entries:
  "t \<in> set (shift_entries g r rule x y z shifts) \<longleftrightarrow>
     (\<exists>a b c. (a, b, c) \<in> set shifts \<and> t = (r, x - a, y - b, z - c) \<and>
        \<not> out_of_bounds g rule (x - a) (y - b) (z - c) \<and> grid_matches g rule (x - a) (y - b) (z - c))"
  unfolding shift_entries_def by (auto split: if_splits)

lemma distinct_concat_map_key:
  assumes "distinct xs" and "\<And>x. x \<in> set xs \<Longrightarrow> distinct (f x)"
    and "\<And>x t. x \<in> set xs \<Longrightarrow> t \<in> set (f x) \<Longrightarrow> key t = x"
  shows "distinct (concat (map f xs))"
  using assms
proof (induction xs)
  case Nil
  show ?case by simp
next
  case (Cons x xs)
  have "set (f x) \<inter> set (concat (map f xs)) = {}"
  proof (rule ccontr)
    assume "set (f x) \<inter> set (concat (map f xs)) \<noteq> {}"
    then obtain t y where "t \<in> set (f x)" "y \<in> set xs" "t \<in> set (f y)" by auto
    then have "key t = x" "key t = y" using Cons.prems(3) by simp_all
    with \<open>y \<in> set xs\<close> Cons.prems(1) show False by simp
  qed
  moreover have "distinct (concat (map f xs))"
    using Cons.prems by (intro Cons.IH) simp_all
  ultimately show ?case using Cons.prems(2) by simp
qed


lemma in_cell_entries:
  assumes "grid_wf g" and "rule_wf g rule"
    and "0 \<le> x" "x < MX g" "0 \<le> y" "y < MY g" "0 \<le> z" "z < MZ g"
  shows "t \<in> set (cell_entries g r rule x y z) \<longleftrightarrow>
     (\<exists>a b c. 0 \<le> a \<and> a < IMX rule \<and> 0 \<le> b \<and> b < IMY rule \<and> 0 \<le> c \<and> c < IMZ rule \<and>
        (input rule ! nat (a + b * IMX rule + c * IMX rule * IMY rule))
          AND push_bit (state g ! nat (x + y * MX g + z * MX g * MY g)) 1 \<noteq> 0 \<and>
        t = (r, x - a, y - b, z - c) \<and>
        \<not> out_of_bounds g rule (x - a) (y - b) (z - c) \<and> grid_matches g rule (x - a) (y - b) (z - c))"
proof -
  note st = state_at_in_grid(2) [OF assms(1) assms(3-8)]
  show ?thesis
    unfolding cell_entries_def in_shift_entries ishifts_set(2) [OF assms(2) st] set_shifts_of
    by auto
qed

lemma distinct_cell_entries:
  assumes "grid_wf g" and "rule_wf g rule"
    and "0 \<le> x" "x < MX g" "0 \<le> y" "y < MY g" "0 \<le> z" "z < MZ g"
  shows "distinct (cell_entries g r rule x y z)"
proof -
  note st = state_at_in_grid(2) [OF assms(1) assms(3-8)]
  show ?thesis
    unfolding cell_entries_def shift_entries_def
  proof (rule distinct_concat_map_key
        [where key = "\<lambda>t. case t of (r', p, q, w) \<Rightarrow> (x - p, y - q, z - w)"])
    show "distinct (ishifts rule ! (state g ! nat (x + y * MX g + z * MX g * MY g)))"
      using ishifts_set(1) [OF assms(2) st] .
  qed (auto split: if_splits)
qed

lemma in_rule_entries:
  assumes wf: "grid_wf g" "rule_wf g rule"
  shows "t \<in> set (rule_entries g r rule) \<longleftrightarrow>
     (\<exists>sx sy sz. t = (r, sx, sy, sz) \<and> \<not> out_of_bounds g rule sx sy sz \<and>
        grid_matches g rule sx sy sz)"
proof
  from wf(2) have rw: "0 < IMX rule" "0 < IMY rule" "0 < IMZ rule" by (auto simp: rule_wf_def)
  assume "t \<in> set (rule_entries g r rule)"
  then obtain x y z where xs: "x \<in> set (stride (IMX rule - 1) (MX g) (IMX rule))"
    and ys: "y \<in> set (stride (IMY rule - 1) (MY g) (IMY rule))"
    and zs: "z \<in> set (stride (IMZ rule - 1) (MZ g) (IMZ rule))"
    and t: "t \<in> set (cell_entries g r rule x y z)"
    by (auto simp: rule_entries_def)
  note c = stride_in_grid [OF rw(1) xs] stride_in_grid [OF rw(2) ys] stride_in_grid [OF rw(3) zs]
  from t show "\<exists>sx sy sz. t = (r, sx, sy, sz) \<and> \<not> out_of_bounds g rule sx sy sz \<and>
        grid_matches g rule sx sy sz"
    unfolding in_cell_entries [OF wf c] by blast
next
  from wf(2) have rw: "0 < IMX rule" "0 < IMY rule" "0 < IMZ rule" by (auto simp: rule_wf_def)
  assume "\<exists>sx sy sz. t = (r, sx, sy, sz) \<and> \<not> out_of_bounds g rule sx sy sz \<and>
        grid_matches g rule sx sy sz"
  then obtain sx sy sz where t: "t = (r, sx, sy, sz)"
    and ib: "\<not> out_of_bounds g rule sx sy sz" and m: "grid_matches g rule sx sy sz"
    by blast
  from ib have b: "0 \<le> sx" "sx + IMX rule \<le> MX g" "0 \<le> sy" "sy + IMY rule \<le> MY g"
    "0 \<le> sz" "sz + IMZ rule \<le> MZ g"
    by (auto simp: out_of_bounds_def)
  let ?x = "corner (IMX rule) sx" and ?y = "corner (IMY rule) sy" and ?z = "corner (IMZ rule) sz"
  have xs: "?x \<in> set (stride (IMX rule - 1) (MX g) (IMX rule))"
    and ys: "?y \<in> set (stride (IMY rule - 1) (MY g) (IMY rule))"
    and zs: "?z \<in> set (stride (IMZ rule - 1) (MZ g) (IMZ rule))"
    using rw b by (simp_all add: corner_in_stride)
  note c = stride_in_grid [OF rw(1) xs] stride_in_grid [OF rw(2) ys] stride_in_grid [OF rw(3) zs]
  let ?a = "?x - sx" and ?b = "?y - sy" and ?c = "?z - sz"
  have r: "0 \<le> ?a" "?a < IMX rule" "0 \<le> ?b" "?b < IMY rule" "0 \<le> ?c" "?c < IMZ rule"
    using corner_bounds(1,2) [OF rw(1), of sx] corner_bounds(1,2) [OF rw(2), of sy]
      corner_bounds(1,2) [OF rw(3), of sz] by simp_all
  from m r have "(input rule ! nat (?a + ?b * IMX rule + ?c * IMX rule * IMY rule))
          AND push_bit (state g ! nat ((sx + ?a) + (sy + ?b) * MX g + (sz + ?c) * MX g * MY g)) 1 \<noteq> 0"
    unfolding grid_matches_iff by blast
  then have "(input rule ! nat (?a + ?b * IMX rule + ?c * IMX rule * IMY rule))
          AND push_bit (state g ! nat (?x + ?y * MX g + ?z * MX g * MY g)) 1 \<noteq> 0"
    by simp
  with r ib m have "t \<in> set (cell_entries g r rule ?x ?y ?z)"
    unfolding in_cell_entries [OF wf c] t
    by (intro exI [of _ ?a] exI [of _ ?b] exI [of _ ?c]) simp
  with xs ys zs show "t \<in> set (rule_entries g r rule)"
    unfolding rule_entries_def by auto
qed

lemma distinct_rule_entries:
  assumes wf: "grid_wf g" "rule_wf g rule"
  shows "distinct (rule_entries g r rule)"
proof -
  from wf(2) have rw: "0 < IMX rule" "0 < IMY rule" "0 < IMZ rule" by (auto simp: rule_wf_def)
  let ?xs = "stride (IMX rule - 1) (MX g) (IMX rule)"
  let ?ys = "stride (IMY rule - 1) (MY g) (IMY rule)"
  let ?zs = "stride (IMZ rule - 1) (MZ g) (IMZ rule)"
  have shape: "\<exists>a b c. 0 \<le> a \<and> a < IMX rule \<and> 0 \<le> b \<and> b < IMY rule \<and> 0 \<le> c \<and> c < IMZ rule \<and>
      t = (r, x - a, y - b, z - c)"
    if "x \<in> set ?xs" "y \<in> set ?ys" "z \<in> set ?zs" "t \<in> set (cell_entries g r rule x y z)"
    for x y z t
    using that(4)
    unfolding in_cell_entries [OF wf stride_in_grid [OF rw(1) that(1)]
        stride_in_grid [OF rw(2) that(2)] stride_in_grid [OF rw(3) that(3)]]
    by blast
  have dv: "IMX rule dvd (x - (IMX rule - 1))" if "x \<in> set ?xs" for x
    using that rw by (simp add: set_stride)
  have dvy: "IMY rule dvd (y - (IMY rule - 1))" if "y \<in> set ?ys" for y
    using that rw by (simp add: set_stride)
  have dvz: "IMZ rule dvd (z - (IMZ rule - 1))" if "z \<in> set ?zs" for z
    using that rw by (simp add: set_stride)
  show ?thesis
    unfolding rule_entries_def
  proof (rule distinct_concat_map_key
      [where key = "\<lambda>t. case t of (r', p, q, w) \<Rightarrow> corner (IMZ rule) w"])
    show "distinct ?zs" using rw by (simp add: distinct_stride)
  next
    fix z assume z: "z \<in> set ?zs"
    show "distinct (concat (map (\<lambda>y. concat (map (\<lambda>x. cell_entries g r rule x y z) ?xs)) ?ys))"
    proof (rule distinct_concat_map_key
        [where key = "\<lambda>t. case t of (r', p, q, w) \<Rightarrow> corner (IMY rule) q"])
      show "distinct ?ys" using rw by (simp add: distinct_stride)
    next
      fix y assume y: "y \<in> set ?ys"
      show "distinct (concat (map (\<lambda>x. cell_entries g r rule x y z) ?xs))"
      proof (rule distinct_concat_map_key
          [where key = "\<lambda>t. case t of (r', p, q, w) \<Rightarrow> corner (IMX rule) p"])
        show "distinct ?xs" using rw by (simp add: distinct_stride)
      next
        fix x assume x: "x \<in> set ?xs"
        show "distinct (cell_entries g r rule x y z)"
          using distinct_cell_entries [OF wf stride_in_grid [OF rw(1) x]
              stride_in_grid [OF rw(2) y] stride_in_grid [OF rw(3) z]] .
      next
        fix x t assume x: "x \<in> set ?xs" and t: "t \<in> set (cell_entries g r rule x y z)"
        from shape [OF x y z t] obtain a b c where "0 \<le> a" "a < IMX rule"
          "t = (r, x - a, y - b, z - c)" by blast
        then show "(case t of (r', p, q, w) \<Rightarrow> corner (IMX rule) p) = x"
          using corner_of_visited [OF rw(1) dv [OF x]] by simp
      qed
    next
      fix y t assume y: "y \<in> set ?ys"
        and "t \<in> set (concat (map (\<lambda>x. cell_entries g r rule x y z) ?xs))"
      then obtain x where x: "x \<in> set ?xs" and t: "t \<in> set (cell_entries g r rule x y z)"
        by auto
      from shape [OF x y z t] obtain a b c where "0 \<le> b" "b < IMY rule"
        "t = (r, x - a, y - b, z - c)" by blast
      then show "(case t of (r', p, q, w) \<Rightarrow> corner (IMY rule) q) = y"
        using corner_of_visited [OF rw(2) dvy [OF y]] by simp
    qed
  next
    fix z t assume z: "z \<in> set ?zs"
      and "t \<in> set (concat (map (\<lambda>y. concat (map (\<lambda>x. cell_entries g r rule x y z) ?xs)) ?ys))"
    then obtain x y where x: "x \<in> set ?xs" and y: "y \<in> set ?ys"
      and t: "t \<in> set (cell_entries g r rule x y z)"
      by auto
    from shape [OF x y z t] obtain a b c where "0 \<le> c" "c < IMZ rule"
      "t = (r, x - a, y - b, z - c)" by blast
    then show "(case t of (r', p, q, w) \<Rightarrow> corner (IMZ rule) w) = z"
      using corner_of_visited [OF rw(3) dvz [OF z]] by simp
  qed
qed

lemma set_full_entries:
  assumes "grid_wf g" and "\<forall>rule \<in> set rs. rule_wf g rule"
  shows "set (full_entries g rs) = {t. valid_match g rs t}"
proof (intro set_eqI iffI)
  fix t assume "t \<in> set (full_entries g rs)"
  then obtain r where r: "r < length rs" and t: "t \<in> set (rule_entries g r (rs ! r))"
    by (auto simp: full_entries_def)
  from r assms(2) have "rule_wf g (rs ! r)" by simp
  from t [unfolded in_rule_entries [OF assms(1) this]] r
  show "t \<in> {t. valid_match g rs t}" by (auto simp: valid_match_def)
next
  fix t assume "t \<in> {t. valid_match g rs t}"
  then obtain r sx sy sz where t: "t = (r, sx, sy, sz)" and r: "r < length rs"
    and v: "\<not> out_of_bounds g (rs ! r) sx sy sz" "grid_matches g (rs ! r) sx sy sz"
    by (cases t) (auto simp: valid_match_def)
  from r assms(2) have "rule_wf g (rs ! r)" by simp
  from in_rule_entries [OF assms(1) this, of t r] t v
  have "t \<in> set (rule_entries g r (rs ! r))" by simp
  with r show "t \<in> set (full_entries g rs)" by (auto simp: full_entries_def)
qed

lemma distinct_full_entries:
  assumes "grid_wf g" and "\<forall>rule \<in> set rs. rule_wf g rule"
  shows "distinct (full_entries g rs)"
  unfolding full_entries_def
proof (rule distinct_concat_map_key [where key = fst])
  fix r assume "r \<in> set [0..<length rs]"
  with assms(2) have "rule_wf g (rs ! r)" by simp
  then show "distinct (rule_entries g r (rs ! r))"
    by (rule distinct_rule_entries [OF assms(1)])
next
  fix r t assume r: "r \<in> set [0..<length rs]" and t: "t \<in> set (rule_entries g r (rs ! r))"
  from r assms(2) have "rule_wf g (rs ! r)" by simp
  from t [unfolded in_rule_entries [OF assms(1) this]] show "fst t = r" by auto
qed simp

lemma valid_in_grid:
  assumes "\<forall>rule \<in> set rs. rule_wf g rule" and "valid_match g rs t"
  shows "in_grid_match g rs t"
proof -
  obtain r x y z where t: "t = (r, x, y, z)" by (cases t)
  from assms(2) t have r: "r < length rs" by (simp add: valid_match_def)
  with assms(1) have "rule_wf g (rs ! r)" by simp
  then have "0 < IMX (rs ! r)" "0 < IMY (rs ! r)" "0 < IMZ (rs ! r)"
    by (auto simp: rule_wf_def)
  with assms(2) t show ?thesis
    by (auto simp: valid_match_def in_grid_match_def out_of_bounds_def)
qed

lemma length_in_grid:
  assumes "grid_wf g" and "fits_buffer g rs" and "distinct L"
    and "\<forall>t \<in> set L. in_grid_match g rs t"
  shows "length L \<le> 268435454"
proof -
  let ?S = "{..<length rs} \<times> {0..<MX g} \<times> {0..<MY g} \<times> {0..<MZ g}"
  from assms(1) have wf: "0 < MX g" "0 < MY g" "0 < MZ g" by (auto simp: grid_wf_def)
  have "set L \<subseteq> ?S" using assms(4) by (auto simp: in_grid_match_def)
  then have "card (set L) \<le> card ?S" by (intro card_mono) simp_all
  moreover have "card ?S = length rs * (nat (MX g) * (nat (MY g) * nat (MZ g)))"
    by (simp add: card_cartesian_product)
  ultimately have c: "length L \<le> length rs * (nat (MX g) * (nat (MY g) * nat (MZ g)))"
    using distinct_card [OF assms(3)] by simp
  have e: "int (length rs * (nat (MX g) * (nat (MY g) * nat (MZ g)))) =
      int (length rs) * MX g * MY g * MZ g"
    using wf by simp
  have "int (length L) \<le> int (length rs * (nat (MX g) * (nat (MY g) * nat (MZ g))))"
    using c by (simp only: of_nat_le_iff)
  also have "\<dots> \<le> 268435454" unfolding e using assms(2) by (simp add: fits_buffer_def)
  finally show ?thesis by simp
qed

lemma full_rescan_result:
  assumes wf: "grid_wf g" "\<forall>rule \<in> set (rules n). rule_wf g rule"
    and fit: "fits_buffer g (rules n)"
  shows "\<exists>n'. full_rescan g n = Some n' \<and> same_rest n n' \<and> buffer_ok n' \<and>
           match_list n' = full_entries g (rules n) \<and>
           matchMask n' = mask_with g (matchMask n) (full_entries g (rules n))"
proof -
  have "length (full_entries g (rules n)) \<le> 268435454"
    using distinct_full_entries [OF wf] set_full_entries [OF wf] valid_in_grid [OF wf(2)]
    by (intro length_in_grid [OF wf(1) fit]) auto
  from full_rescan_extends [OF wf fit this] obtain n' where
    f: "full_rescan g n = Some n'"
    and e: "extends g (n\<lparr>matchCount := 0\<rparr>) (full_entries g (rules n)) n'"
    by blast
  note s = extends_sel [OF e]
  have "match_list n' = full_entries g (rules n)" using s(3) by (simp add: match_list_def)
  moreover have "matchMask n' = mask_with g (matchMask n) (full_entries g (rules n))"
    using s(5) by simp
  moreover have "same_rest n n'" using f by (rule full_rescan_same_rest)
  ultimately show ?thesis using f s(1) by blast
qed


subsection \<open>The incremental rescan keeps the invariant and finds the triggered matches\<close>

lemma grows_refl: "matcher_inv g n \<Longrightarrow> grows g n n"
  by (auto simp: grows_def same_rest_refl)

lemma grows_trans:
  assumes "grows g a b" and "grows g b c"
  shows "grows g a c"
proof -
  from assms(1) have r: "rules b = rules a" by (auto simp: grows_def dest: same_rest_sel(6))
  from assms obtain N1 N2 where "match_list b = match_list a @ N1"
    "list_all (valid_match g (rules a)) N1" "match_list c = match_list b @ N2"
    "list_all (valid_match g (rules a)) N2"
    by (auto simp: grows_def r)
  then have "match_list c = match_list a @ (N1 @ N2)" "list_all (valid_match g (rules a)) (N1 @ N2)"
    by simp_all
  then show ?thesis using assms by (auto simp: grows_def intro: same_rest_trans)
qed

lemma grows_sel:
  assumes "grows g n n'"
  shows "matcher_inv g n'" and "rules n' = rules n" and "set (match_list n) \<subseteq> set (match_list n')"
    and "same_rest n n'"
  using assms by (auto simp: grows_def dest: same_rest_sel(6))

lemma for_each_grows:
  assumes step: "\<And>x m. x \<in> set xs \<Longrightarrow> grows g n m
            \<Longrightarrow> \<exists>m'. body x m = Some m' \<and> grows g m m' \<and> Q x m'"
    and mono: "\<And>x m m'. Q x m \<Longrightarrow> grows g m m' \<Longrightarrow> Q x m'"
  shows "grows g n m \<Longrightarrow> \<exists>n'. for_each body xs m = Some n' \<and> grows g m n' \<and> (\<forall>x \<in> set xs. Q x n')"
  using step
proof (induction xs arbitrary: m)
  case Nil
  then show ?case by (auto intro: grows_refl dest: grows_sel(1))
next
  case (Cons x xs)
  from Cons.prems(2) [of x m] Cons.prems(1) obtain m1 where
    b: "body x m = Some m1" and g1: "grows g m m1" and q: "Q x m1"
    by auto
  have g2: "grows g n m1" using Cons.prems(1) g1 by (rule grows_trans)
  have "\<exists>n'. for_each body xs m1 = Some n' \<and> grows g m1 n' \<and> (\<forall>x \<in> set xs. Q x n')"
  proof (rule Cons.IH [OF g2])
    fix y k assume "y \<in> set xs" "grows g n k"
    then show "\<exists>m'. body y k = Some m' \<and> grows g k m' \<and> Q y m'"
      using Cons.prems(2) [of y k] by simp
  qed
  then obtain n' where r: "for_each body xs m1 = Some n'" and g3: "grows g m1 n'"
    and qs: "\<forall>x \<in> set xs. Q x n'"
    by blast
  have "Q x n'" using q g3 by (rule mono)
  moreover have "grows g m n'" using g1 g3 by (rule grows_trans)
  ultimately show ?case using b r qs by auto
qed

lemma mask_inv_bit:
  assumes "mask_inv g n"
  shows "matchMask n r i \<longleftrightarrow>
           (\<exists>x y z. (r, x, y, z) \<in> set (match_list n) \<and> x + y * MX g + z * MX g * MY g = i)"
proof -
  have "matchMask n r i = mask_with g (\<lambda>r i. False) (match_list n) r i"
    using assms by (simp add: mask_inv_def)
  then show ?thesis by (auto simp: mask_with_def list_ex_iff)
qed

lemma check_add_grows:
  assumes wf: "grid_wf g" "\<forall>rule \<in> set (rules n). rule_wf g rule" "fits_buffer g (rules n)"
    and inv: "matcher_inv g n" and r: "r < length (rules n)"
    and ib: "\<not> out_of_bounds g (rules n ! r) sx sy sz"
  shows "\<exists>n'. (if \<not> matchMask n r (sx + sy * MX g + sz * MX g * MY g) \<and>
                  grid_matches g (rules n ! r) sx sy sz
               then add g r sx sy sz n else Some n) = Some n' \<and>
              grows g n n' \<and>
              (grid_matches g (rules n ! r) sx sy sz \<longrightarrow> (r, sx, sy, sz) \<in> set (match_list n'))"
proof -
  let ?t = "(r, sx, sy, sz)"
  let ?i = "sx + sy * MX g + sz * MX g * MY g"
  from inv have i: "buffer_ok n" "distinct (match_list n)"
    "\<forall>t \<in> set (match_list n). in_grid_match g (rules n) t" "mask_inv g n"
    by (auto simp: matcher_inv_def list_all_iff)
  from r wf(2) have rw: "0 < IMX (rules n ! r)" "0 < IMY (rules n ! r)" "0 < IMZ (rules n ! r)"
    by (auto simp: rule_wf_def)
  with ib r have tg: "in_grid_match g (rules n) ?t"
    by (auto simp: in_grid_match_def out_of_bounds_def)
  show ?thesis
  proof (cases "matchMask n r ?i")
    case True
    then obtain x y z where e: "(r, x, y, z) \<in> set (match_list n)"
      and ix: "x + y * MX g + z * MX g * MY g = ?i"
      unfolding mask_inv_bit [OF i(4)] by blast
    from i(3) e have "in_grid_match g (rules n) (r, x, y, z)" by blast
    with tg ix have "x = sx \<and> y = sy \<and> z = sz"
      by (intro cell_index_inj [of x "MX g" y "MY g"]) (auto simp: in_grid_match_def)
    with e have "?t \<in> set (match_list n)" by simp
    with True inv show ?thesis by (auto intro: grows_refl)
  next
    case False
    show ?thesis
    proof (cases "grid_matches g (rules n ! r) sx sy sz")
      case nm: False
      with inv show ?thesis by (auto intro: grows_refl)
    next
      case m: True
      have notin: "?t \<notin> set (match_list n)"
        using False unfolding mask_inv_bit [OF i(4)] by blast
      have "length (match_list n @ [?t]) \<le> 268435454"
        using i(2,3) notin tg by (intro length_in_grid [OF wf(1,3)]) auto
      then have c: "matchCount n < 268435454" by (simp add: match_list_def)
      note sm = fits_small [OF wf(1,3) r]
      from tg sm have b: "0 \<le> sx" "sx < 4294967296" "0 \<le> sy" "sy < 4294967296"
        "0 \<le> sz" "sz < 4294967296"
        by (auto simp: in_grid_match_def)
      from add_spec [OF i(1) c sm(4) b, of g] obtain n' where
        a: "add g r sx sy sz n = Some n'" and e: "extends g n [?t] n'"
        by blast
      note s = extends_sel [OF e]
      have "mask_inv g n'"
        using s(3,5) i(4) by (simp add: mask_inv_def mask_with_append)
      moreover have "valid_match g (rules n) ?t"
        using r ib m by (simp add: valid_match_def)
      ultimately have "grows g n n'"
        using s i(2,3) notin tg
        by (auto simp: grows_def matcher_inv_def list_all_iff)
      with a s(3) False m show ?thesis by simp
    qed
  qed
qed

lemma scan_change_grows:
  assumes wf: "grid_wf g" "\<forall>rule \<in> set rs. rule_wf g rule" "fits_buffer g rs"
    and n: "matcher_inv g n" "rules n = rs" and r: "r < length rs" and v: "v < C g"
  shows "\<exists>n'. scan_change g r (rs ! r) x y z (Some v) n = Some n' \<and> grows g n n' \<and>
           set (shift_entries g r (rs ! r) x y z (ishifts (rs ! r) ! v)) \<subseteq> set (match_list n')"
proof -
  let ?rule = "rs ! r"
  let ?body = "\<lambda>(shiftx, shifty, shiftz) n.
             let sx = x - shiftx; sy = y - shifty; sz = z - shiftz
             in if out_of_bounds g ?rule sx sy sz then Some n
                else (let si = sx + sy * MX g + sz * MX g * MY g
                      in if \<not> matchMask n r si \<and> grid_matches g ?rule sx sy sz
                         then add g r sx sy sz n else Some n)"
  let ?Q = "\<lambda>s m. case s of (a, b, c) \<Rightarrow>
     \<not> out_of_bounds g ?rule (x - a) (y - b) (z - c) \<and> grid_matches g ?rule (x - a) (y - b) (z - c)
       \<longrightarrow> (r, x - a, y - b, z - c) \<in> set (match_list m)"
  from r wf(2) have "length (ishifts ?rule) = C g" by (auto simp: rule_wf_def ishifts_ok_def)
  with v have sh: "shifts_at ?rule (Some v) = Some (ishifts ?rule ! v)"
    by (simp add: shifts_at_def)
  have "\<exists>n'. for_each ?body (ishifts ?rule ! v) n = Some n' \<and> grows g n n' \<and>
           (\<forall>s \<in> set (ishifts ?rule ! v). ?Q s n')"
  proof (rule for_each_grows [where n = n])
    fix s :: cell and m :: "('a, 'b, 'c, 'd) node"
    assume gm: "grows g n m"
    obtain a b c where s: "s = (a, b, c)" by (cases s)
    note gs = grows_sel [OF gm]
    have rm: "rules m = rs" using gs(2) n(2) by simp
    show "\<exists>m'. ?body s m = Some m' \<and> grows g m m' \<and> ?Q s m'"
    proof (cases "out_of_bounds g ?rule (x - a) (y - b) (z - c)")
      case True
      then show ?thesis using gs(1) by (auto simp: s Let_def intro: grows_refl)
    next
      case False
      from check_add_grows [of g m r "x - a" "y - b" "z - c"] wf gs(1) r False rm
      show ?thesis by (simp add: s Let_def)
    qed
  next
    fix s :: cell and m m' :: "('a, 'b, 'c, 'd) node"
    assume "?Q s m" "grows g m m'"
    then show "?Q s m'" using grows_sel(3) [of g m m'] by (auto split: prod.splits)
  qed (use n in \<open>simp add: grows_refl\<close>)
  then show ?thesis
    unfolding scan_change_def sh in_shift_entries subset_iff by (auto split: prod.splits)
qed


lemma change_grows:
  assumes wf: "grid_wf g" "\<forall>rule \<in> set rs. rule_wf g rule" "fits_buffer g rs"
    and n: "matcher_inv g n" "rules n = rs" and c: "in_grid g (x, y, z)"
  shows "\<exists>n'. (let val = state_at g (x + y * MX g + z * MX g * MY g)
               in for_each (\<lambda>r n. scan_change g r (rules n ! r) x y z val n)
                    [0..<length (rules n)] n) = Some n' \<and>
              grows g n n' \<and> set (triggered g rs (x, y, z)) \<subseteq> set (match_list n')"
proof -
  let ?v = "state g ! nat (x + y * MX g + z * MX g * MY g)"
  let ?Q = "\<lambda>r m. set (shift_entries g r (rs ! r) x y z (ishifts (rs ! r) ! ?v))
                    \<subseteq> set (match_list m)"
  from c have cell: "0 \<le> x" "x < MX g" "0 \<le> y" "y < MY g" "0 \<le> z" "z < MZ g"
    by (auto simp: in_grid_def)
  note st = state_at_in_grid [OF wf(1) cell]
  have "\<exists>n'. for_each (\<lambda>r n. scan_change g r (rules n ! r) x y z (Some ?v) n) [0..<length rs] n
            = Some n' \<and> grows g n n' \<and> (\<forall>r \<in> set [0..<length rs]. ?Q r n')"
  proof (rule for_each_grows [where n = n])
    fix r and m :: "('a, 'b, 'c, 'd) node"
    assume r: "r \<in> set [0..<length rs]" and gm: "grows g n m"
    note gs = grows_sel [OF gm]
    have rm: "rules m = rs" using gs(2) n(2) by simp
    from r have "r < length rs" by simp
    from scan_change_grows [OF wf gs(1) rm this st(2), of x y z]
    show "\<exists>m'. scan_change g r (rules m ! r) x y z (Some ?v) m = Some m' \<and> grows g m m' \<and> ?Q r m'"
      by (simp add: rm)
  next
    fix r and m m' :: "('a, 'b, 'c, 'd) node"
    assume "?Q r m" "grows g m m'"
    then show "?Q r m'" using grows_sel(3) [of g m m'] by blast
  qed (use n in \<open>simp add: grows_refl\<close>)
  then show ?thesis
    by (auto simp: Let_def st(1) n(2) triggered_def)
qed

lemma incremental_rescan_grows:
  assumes wf: "grid_wf g" "\<forall>rule \<in> set (rules n). rule_wf g rule" "fits_buffer g (rules n)"
    and n: "matcher_inv g n" and cs: "list_all (in_grid g) (changes ip)"
  shows "\<exists>n'. incremental_rescan g ip n = Some n' \<and> grows g n n' \<and>
           (\<forall>f. first_at ip (lastMatchedTurn n) = Some f \<longrightarrow>
              (\<forall>c \<in> set (drop f (changes ip)). set (triggered g (rules n) c) \<subseteq> set (match_list n')))"
proof (cases "first_at ip (lastMatchedTurn n)")
  case None
  with n show ?thesis by (simp add: incremental_rescan_def grows_refl)
next
  case (Some f)
  let ?rs = "rules n"
  let ?body = "\<lambda>(x, y, z) n.
             let val = state_at g (x + y * MX g + z * MX g * MY g)
             in for_each (\<lambda>r n. scan_change g r (rules n ! r) x y z val n)
                  [0..<length (rules n)] n"
  let ?Q = "\<lambda>c m. set (triggered g ?rs c) \<subseteq> set (match_list m)"
  have "\<exists>n'. for_each ?body (drop f (changes ip)) n = Some n' \<and> grows g n n' \<and>
          (\<forall>c \<in> set (drop f (changes ip)). ?Q c n')"
  proof (rule for_each_grows [where n = n])
    fix c :: cell and m :: "('a, 'b, 'c, 'd) node"
    assume c: "c \<in> set (drop f (changes ip))" and gm: "grows g n m"
    obtain x y z where xyz: "c = (x, y, z)" by (cases c)
    from c cs have ig: "in_grid g (x, y, z)"
      by (auto simp: list_all_iff xyz dest: in_set_dropD)
    note gs = grows_sel [OF gm]
    from change_grows [OF wf gs(1,2) ig]
    show "\<exists>m'. ?body c m = Some m' \<and> grows g m m' \<and> ?Q c m'"
      by (simp add: xyz)
  next
    fix c :: cell and m m' :: "('a, 'b, 'c, 'd) node"
    assume "?Q c m" "grows g m m'"
    then show "?Q c m'" using grows_sel(3) [of g m m'] by blast
  qed (use n in \<open>simp add: grows_refl\<close>)
  with Some show ?thesis by (simp add: incremental_rescan_def)
qed

subsection \<open>What run does to the match store\<close>

lemma observe_ip:
  assumes "observe env g ip n = Some (r, n', ip')"
  shows "changes ip' = changes ip" and "first ip' = first ip"
  using assms unfolding observe_def start_search_def
  by (auto split: option.splits sum.splits prod.splits if_splits iter_result.splits simp: Let_def)

lemma match_list_cong:
  "matches a = matches b \<Longrightarrow> matchCount a = matchCount b \<Longrightarrow> match_list a = match_list b"
  by (simp add: match_list_def)

lemma mask_inv_cong:
  "matchMask a = matchMask b \<Longrightarrow> matches a = matches b \<Longrightarrow> matchCount a = matchCount b
     \<Longrightarrow> mask_inv g a = mask_inv g b"
  by (simp add: mask_inv_def match_list_def)

lemma matcher_inv_cong:
  "matchMask a = matchMask b \<Longrightarrow> matches a = matches b \<Longrightarrow> matchCount a = matchCount b
     \<Longrightarrow> rules a = rules b \<Longrightarrow> matcher_inv g a = matcher_inv g b"
  by (simp add: matcher_inv_def mask_inv_def match_list_def buffer_ok_def)

lemma mask_with_absorb:
  "set L \<subseteq> set E \<Longrightarrow> mask_with g (mask_with g K L) E = mask_with g K E"
  by (fastforce simp: mask_with_def fun_eq_iff list_ex_iff)

lemma run_refreshE:
  fixes n n' :: "('o, 'p, 'g, 'a) node" and ip ip' :: "'r interp"
  assumes "run env g ip n = Some (st, n', ip')"
  obtains (same) "matchMask n' = matchMask n" "matches n' = matches n" "matchCount n' = matchCount n"
  | (refreshed) n1 n2 :: "('o, 'p, 'g, 'a) node" and ip1 :: "'r interp"
    where "matchMask n1 = matchMask n" "matches n1 = matches n"
      "matchCount n1 = matchCount n" "rules n1 = rules n" "lastMatchedTurn n1 = lastMatchedTurn n"
      "changes ip1 = changes ip" "first ip1 = first ip" "refresh_matches g ip1 n1 = Some n2"
      "matchMask n' = matchMask n2" "matches n' = matches n2" "matchCount n' = matchCount n2"
proof (cases "0 < steps n \<and> steps n \<le> counter n")
  case True
  with assms have "n' = n\<lparr>last_fired := replicate (length (last_fired n)) 0\<rparr>"
    by (auto simp: run_def run_traced_def Let_def)
  then show ?thesis by (intro same) simp_all
next
  case False
  let ?n0 = "n\<lparr>last_fired := replicate (length (last_fired n)) 0\<rparr>"
  from assms False obtain cs where rb: "run_body env g ip ?n0 = Some (st, n', ip', cs)"
    by (auto simp: run_def run_traced_past_limit split: option.splits)
  then obtain r n1 ip1 where ob: "observe env g ip ?n0 = Some (r, n1, ip1)"
    by (auto simp: run_body_def split: option.splits)
  note os = observe_sel [OF ob] observe_ip [OF ob]
  show ?thesis
  proof (cases r)
    case (Some st')
    with rb ob have "n' = n1" by (simp add: run_body_def)
    with os show ?thesis by (intro same) simp_all
  next
    case None
    with rb ob obtain n2 where rm: "refresh_matches g ip1 n1 = Some n2"
      and rf: "run_fields env g n2 = Some (st, n', cs)"
      by (auto simp: run_body_def split: option.splits)
    note fs = run_fields_sel [OF rf]
    show ?thesis
      using os fs rm by (intro refreshed [of n1 ip1 n2]) simp_all
  qed
qed


subsection \<open>The full rescan is exact\<close>

text \<open>
  Claim C3. For a well-formed grid and rule list (whose tables \<^verbatim>\<open>ishifts\<close> are those of the
  specification, within the size that the buffer arithmetic of \<^verbatim>\<open>add\<close> supports), the
  refresh of the matches with \<^verbatim>\<open>lastMatchedTurn < 0\<close> returns, and the match list it leaves
  in \<^verbatim>\<open>matches[0 .. matchCount)\<close> holds exactly the quadruples \<open>(r, sx, sy, sz)\<close> whose box fits
  in the grid and for which \<^verbatim>\<open>grid.matches\<close> holds, each of them once.
\<close>

theorem full_rescan_exact:
  assumes "grid_wf g" and "\<forall>rule \<in> set (rules n). rule_wf g rule"
    and "fits_buffer g (rules n)" and "lastMatchedTurn n < 0"
  shows "\<exists>n'. refresh_matches g ip n = Some n' \<and> distinct (match_list n') \<and>
           set (match_list n') =
             {(r, sx, sy, sz). r < length (rules n) \<and>
                0 \<le> sx \<and> 0 \<le> sy \<and> 0 \<le> sz \<and>
                sx + IMX (rules n ! r) \<le> MX g \<and> sy + IMY (rules n ! r) \<le> MY g \<and>
                sz + IMZ (rules n ! r) \<le> MZ g \<and>
                grid_matches g (rules n ! r) sx sy sz}"
proof -
  from full_rescan_result [OF assms(1-3)] obtain n' where
    f: "full_rescan g n = Some n'" and m: "match_list n' = full_entries g (rules n)"
    by blast
  have "refresh_matches g ip n = Some n'" using f assms(4) by (simp add: refresh_matches_def)
  moreover have "distinct (match_list n')"
    unfolding m using assms(1,2) by (rule distinct_full_entries)
  moreover have "set (match_list n') =
             {(r, sx, sy, sz). r < length (rules n) \<and>
                0 \<le> sx \<and> 0 \<le> sy \<and> 0 \<le> sz \<and>
                sx + IMX (rules n ! r) \<le> MX g \<and> sy + IMY (rules n ! r) \<le> MY g \<and>
                sz + IMZ (rules n ! r) \<le> MZ g \<and>
                grid_matches g (rules n ! r) sx sy sz}"
    unfolding m set_full_entries [OF assms(1,2)]
    by (auto simp: valid_match_def out_of_bounds_def)
  ultimately show ?thesis by blast
qed

text \<open>The grid \<^verbatim>\<open>BW\<close> and the rule with the input \<^verbatim>\<open>B\<close>: one match, at the first cell.\<close>

theorem full_rescan_exact_witness:
  "grid_wf (grid_of [0, 1]) \<and> list_all (rule_wf (grid_of [0, 1])) (rules node0) \<and>
   fits_buffer (grid_of [0, 1]) (rules node0) \<and> lastMatchedTurn node0 < 0 \<and>
   (\<exists>n'. refresh_matches (grid_of [0, 1]) ip0 node0 = Some n' \<and> match_list n' = [(0, 0, 0, 0)] \<and>
      distinct (match_list n') \<and>
      set (match_list n') =
             {(r, sx, sy, sz). r < length (rules node0) \<and>
                0 \<le> sx \<and> 0 \<le> sy \<and> 0 \<le> sz \<and>
                sx + IMX (rules node0 ! r) \<le> MX (grid_of [0, 1]) \<and>
                sy + IMY (rules node0 ! r) \<le> MY (grid_of [0, 1]) \<and>
                sz + IMZ (rules node0 ! r) \<le> MZ (grid_of [0, 1]) \<and>
                grid_matches (grid_of [0, 1]) (rules node0 ! r) sx sy sz})"
proof -
  have g: "grid_wf (grid_of [0, 1])" by (simp add: grid_wf_def grid_of_def)
  have r: "list_all (rule_wf (grid_of [0, 1])) (rules node0)" by code_simp
  have f: "fits_buffer (grid_of [0, 1]) (rules node0)"
    by (simp add: fits_buffer_def grid_of_def node0_def)
  have l: "lastMatchedTurn node0 < 0" by (simp add: node0_def)
  have e: "(case refresh_matches (grid_of [0, 1]) ip0 node0 of
              None \<Rightarrow> False | Some n' \<Rightarrow> match_list n' = [(0, 0, 0, 0)])"
    by code_simp
  from full_rescan_exact [OF g r [unfolded list_all_iff] f l, of ip0] e
  have "\<exists>n'. refresh_matches (grid_of [0, 1]) ip0 node0 = Some n' \<and> match_list n' = [(0, 0, 0, 0)] \<and>
      distinct (match_list n') \<and>
      set (match_list n') =
             {(r, sx, sy, sz). r < length (rules node0) \<and>
                0 \<le> sx \<and> 0 \<le> sy \<and> 0 \<le> sz \<and>
                sx + IMX (rules node0 ! r) \<le> MX (grid_of [0, 1]) \<and>
                sy + IMY (rules node0 ! r) \<le> MY (grid_of [0, 1]) \<and>
                sz + IMZ (rules node0 ! r) \<le> MZ (grid_of [0, 1]) \<and>
                grid_matches (grid_of [0, 1]) (rules node0 ! r) sx sy sz}"
    by auto
  with g r f l show ?thesis by (intro conjI)
qed

subsection \<open>The invariant on the example nodes\<close>

lemma matcher_inv_node_w: "matcher_inv (grid_of [0, 1, 0]) node_w"
proof -
  have ml: "match_list node_w = [(0, 2, 0, 0)]" by code_simp
  have "matchMask node_w = mask_with (grid_of [0, 1, 0]) (\<lambda>r i. False) [(0, 2, 0, 0)]"
    by (auto simp: node_w_def mask_with_def fun_eq_iff grid_of_def)
  then show ?thesis
    by (simp add: matcher_inv_def mask_inv_def ml buffer_ok_def in_grid_match_def)
      (simp add: node_w_def node0_def grid_of_def)
qed

lemma mask_inv_node_c: "mask_inv (grid_of [1, 1, 0]) node_c"
proof -
  have ml: "match_list node_c = [(0, 1, 0, 0)]" by code_simp
  have "matchMask node_c = mask_with (grid_of [1, 1, 0]) (\<lambda>r i. False) [(0, 1, 0, 0)]"
    by (auto simp: node_c_def mask_with_def fun_eq_iff grid_of_def)
  then show ?thesis by (simp add: mask_inv_def ml)
qed


subsection \<open>The mask and the match list\<close>

text \<open>
  Claim C9, as amended. On a well-formed grid and rule list: a call of \<^verbatim>\<open>run()\<close> that takes
  the incremental path on a node satisfying the invariant of the match store (with the
  logged cells in the grid) returns a node on which a bit of \<^verbatim>\<open>matchMask\<close> is set exactly
  if the match list holds a match of that rule at that cell index. \<^verbatim>\<open>reset()\<close> itself changes
  neither the mask nor the list and sets \<^verbatim>\<open>lastMatchedTurn\<close> to -1; the call of \<^verbatim>\<open>run()\<close>
  after it, which rescans fully without clearing the mask, keeps the invariant provided
  every match that was listed is still valid.
\<close>

theorem mask_invariant:
  fixes n n' :: "('o, 'p, 'g, 'a) node" and ip ip' :: "'r interp"
  assumes "grid_wf g" and "\<forall>rule \<in> set (rules n). rule_wf g rule" and "fits_buffer g (rules n)"
  shows "(0 \<le> lastMatchedTurn n \<and> matcher_inv g n \<and> list_all (in_grid g) (changes ip) \<and>
          run env g ip n = Some (st, n', ip') \<longrightarrow> mask_inv g n') \<and>
         (mask_inv g n \<and> list_all (valid_match g (rules n)) (match_list n) \<and>
          run env g ip (reset n) = Some (st, n', ip') \<longrightarrow> mask_inv g n') \<and>
         matchMask (reset n) = matchMask n \<and> match_list (reset n) = match_list n \<and>
         lastMatchedTurn (reset n) = - 1"
proof (intro conjI impI)
  assume a: "0 \<le> lastMatchedTurn n \<and> matcher_inv g n \<and> list_all (in_grid g) (changes ip) \<and>
          run env g ip n = Some (st, n', ip')"
  then have inv: "matcher_inv g n" and run: "run env g ip n = Some (st, n', ip')" by simp_all
  from run show "mask_inv g n'"
  proof (cases rule: run_refreshE)
    case same
    then have "mask_inv g n' = mask_inv g n" by (intro mask_inv_cong) simp_all
    with inv show ?thesis by (simp add: matcher_inv_def)
  next
    case e: (refreshed n1 n2 ip1)
    have i1: "matcher_inv g n1" using inv matcher_inv_cong [OF e(1-4), of g] by simp
    have "\<exists>m. incremental_rescan g ip1 n1 = Some m \<and> grows g n1 m"
      using incremental_rescan_grows [of g n1 ip1] assms i1 a e(4,6) by auto
    with e(5,8) a have "grows g n1 n2" by (auto simp: refresh_matches_def)
    then have "mask_inv g n2" by (auto simp: grows_def matcher_inv_def)
    then show ?thesis using mask_inv_cong [OF e(9-11), of g] by simp
  qed
next
  assume a: "mask_inv g n \<and> list_all (valid_match g (rules n)) (match_list n) \<and>
          run env g ip (reset n) = Some (st, n', ip')"
  then have inv: "mask_inv g n" and run: "run env g ip (reset n) = Some (st, n', ip')"
    and val: "\<forall>t \<in> set (match_list n). valid_match g (rules n) t"
    by (simp_all add: list_all_iff)
  have rs: "matchMask (reset n) = matchMask n" "matches (reset n) = matches n"
    "matchCount (reset n) = matchCount n" "rules (reset n) = rules n"
    "lastMatchedTurn (reset n) = - 1"
    by (simp_all add: reset_def)
  from run show "mask_inv g n'"
  proof (cases rule: run_refreshE)
    case same
    then have "mask_inv g n' = mask_inv g n" using rs by (intro mask_inv_cong) simp_all
    with inv show ?thesis by simp
  next
    case e: (refreshed n1 n2 ip1)
    from full_rescan_result [of g n1] assms e(4,5,8) rs have
      m: "match_list n2 = full_entries g (rules n)"
      "matchMask n2 = mask_with g (matchMask n1) (full_entries g (rules n))"
      by (auto simp: refresh_matches_def)
    have "set (match_list n) \<subseteq> set (full_entries g (rules n))"
      using val by (auto simp: set_full_entries [OF assms(1,2)])
    then have "matchMask n2 = mask_with g (\<lambda>r i. False) (match_list n2)"
      using m inv e(1) rs by (simp add: mask_inv_def mask_with_absorb)
    then have "mask_inv g n2" by (simp add: mask_inv_def)
    then show ?thesis using mask_inv_cong [OF e(9-11), of g] by simp
  qed
qed (simp_all add: reset_def match_list_def)

text \<open>
  The node that lists the match at cell 2 of \<^verbatim>\<open>BWB\<close>, on the incremental path and after
  \<^verbatim>\<open>reset()\<close>.
\<close>

theorem mask_invariant_witness:
  "grid_wf (grid_of [0, 1, 0]) \<and> list_all (rule_wf (grid_of [0, 1, 0])) (rules node_w) \<and>
   fits_buffer (grid_of [0, 1, 0]) (rules node_w) \<and>
   0 \<le> lastMatchedTurn node_w \<and> matcher_inv (grid_of [0, 1, 0]) node_w \<and>
   list_all (in_grid (grid_of [0, 1, 0])) (changes ip_w) \<and>
   mask_inv (grid_of [0, 1, 0]) node_w \<and>
   list_all (valid_match (grid_of [0, 1, 0]) (rules node_w)) (match_list node_w) \<and>
   (\<exists>st n' ip'. run (env_of True counting (\<lambda>f c. True)) (grid_of [0, 1, 0]) ip_w node_w =
        Some (st, n', ip') \<and> mask_inv (grid_of [0, 1, 0]) n') \<and>
   (\<exists>st n' ip'. run (env_of True counting (\<lambda>f c. True)) (grid_of [0, 1, 0]) ip_w (reset node_w) =
        Some (st, n', ip') \<and> mask_inv (grid_of [0, 1, 0]) n')"
proof -
  let ?g = "grid_of [0, 1, 0]"
  let ?env = "env_of True counting (\<lambda>f c. True)"
  have g: "grid_wf ?g" by (simp add: grid_wf_def grid_of_def)
  have r: "list_all (rule_wf ?g) (rules node_w)" by code_simp
  have f: "fits_buffer ?g (rules node_w)"
    by (simp add: fits_buffer_def grid_of_def node_w_def node0_def)
  have l: "0 \<le> lastMatchedTurn node_w" by (simp add: node_w_def)
  note i = matcher_inv_node_w
  have c: "list_all (in_grid ?g) (changes ip_w)" by code_simp
  have m: "mask_inv ?g node_w" using i by (simp add: matcher_inv_def)
  have v: "list_all (valid_match ?g (rules node_w)) (match_list node_w)" by code_simp
  have "run ?env ?g ip_w node_w \<noteq> None" by code_simp
  then obtain st n' ip' where r1: "run ?env ?g ip_w node_w = Some (st, n', ip')" by auto
  have "run ?env ?g ip_w (reset node_w) \<noteq> None" by code_simp
  then obtain st2 n2 ip2 where r2: "run ?env ?g ip_w (reset node_w) = Some (st2, n2, ip2)" by auto
  have 1: "mask_inv ?g n'"
    using mask_invariant [OF g r [unfolded list_all_iff] f, of ip_w ?env st n' ip'] l i c r1 by blast
  have 2: "mask_inv ?g n2"
    using mask_invariant [OF g r [unfolded list_all_iff] f, of ip_w ?env st2 n2 ip2] m v r2 by blast
  from 1 r1 have e1: "\<exists>st n' ip'. run ?env ?g ip_w node_w = Some (st, n', ip') \<and> mask_inv ?g n'"
    by blast
  from 2 r2 have e2: "\<exists>st n' ip'. run ?env ?g ip_w (reset node_w) = Some (st, n', ip') \<and> mask_inv ?g n'"
    by blast
  from g r f l i c m v e1 e2 show ?thesis by (intro conjI)
qed

text \<open>
  The claim as stated fails when a listed match has become invalid: on the grid \<^verbatim>\<open>WWB\<close> the
  node with the rule \<^verbatim>\<open>BB\<close> satisfies the invariant with its match at cell 1; after
  \<^verbatim>\<open>reset()\<close> and a complete \<^verbatim>\<open>run()\<close> the list is empty and the bit of rule 0 at cell 1 is
  still set.
\<close>

theorem mask_invariant_counterexample:
  "mask_inv (grid_of [1, 1, 0]) node_c \<and>
   run (env_of True counting (\<lambda>f c. True)) (grid_of [1, 1, 0]) ip_c (reset node_c) \<noteq> None \<and>
   match_list (fst (snd (the (run (env_of True counting (\<lambda>f c. True)) (grid_of [1, 1, 0]) ip_c
      (reset node_c))))) = [] \<and>
   matchMask (fst (snd (the (run (env_of True counting (\<lambda>f c. True)) (grid_of [1, 1, 0]) ip_c
      (reset node_c))))) 0 1 \<and>
   \<not> mask_inv (grid_of [1, 1, 0])
      (fst (snd (the (run (env_of True counting (\<lambda>f c. True)) (grid_of [1, 1, 0]) ip_c
         (reset node_c)))))"
proof -
  let ?n = "fst (snd (the (run (env_of True counting (\<lambda>f c. True)) (grid_of [1, 1, 0]) ip_c
      (reset node_c))))"
  have r: "run (env_of True counting (\<lambda>f c. True)) (grid_of [1, 1, 0]) ip_c (reset node_c) \<noteq> None"
    by code_simp
  have ml: "match_list ?n = []" by code_simp
  have b: "matchMask ?n 0 1" by code_simp
  have "\<not> mask_inv (grid_of [1, 1, 0]) ?n"
  proof
    assume "mask_inv (grid_of [1, 1, 0]) ?n"
    then have "matchMask ?n = mask_with (grid_of [1, 1, 0]) (\<lambda>r i. False) (match_list ?n)"
      unfolding mask_inv_def .
    then have "matchMask ?n = (\<lambda>r i. False)" unfolding ml mask_with_Nil .
    with b show False by metis
  qed
  with mask_inv_node_c r ml b show ?thesis by (intro conjI)
qed

subsection \<open>Incremental and full rescan\<close>

lemma set_cells_of: "set (cells_of g) = {c. in_grid g c}"
proof (intro set_eqI iffI)
  fix c assume "c \<in> set (cells_of g)"
  then show "c \<in> {c. in_grid g c}" by (auto simp: cells_of_def in_grid_def)
next
  fix c assume c: "c \<in> {c. in_grid g c}"
  obtain x y z where xyz: "c = (x, y, z)" by (cases c)
  from c have "x \<in> set [0..MX g - 1]" "y \<in> set [0..MY g - 1]" "z \<in> set [0..MZ g - 1]"
    by (auto simp: xyz in_grid_def)
  then show "c \<in> set (cells_of g)" unfolding cells_of_def xyz by fastforce
qed

lemma edits_loggedD:
  assumes "edits_logged g0 g cs" and "in_grid g (x, y, z)"
    and "state g ! nat (x + y * MX g + z * MX g * MY g) \<noteq>
         state g0 ! nat (x + y * MX g + z * MX g * MY g)"
  shows "(x, y, z) \<in> set cs"
  using assms by (auto simp: edits_logged_def list_all_iff set_cells_of)

lemma in_triggered:
  assumes wf: "grid_wf g" "\<forall>rule \<in> set rs. rule_wf g rule"
    and v: "valid_match g rs (r, sx, sy, sz)"
    and b: "0 \<le> i" "i < IMX (rs ! r)" "0 \<le> j" "j < IMY (rs ! r)" "0 \<le> k" "k < IMZ (rs ! r)"
  shows "(r, sx, sy, sz) \<in> set (triggered g rs (sx + i, sy + j, sz + k))"
proof -
  let ?rule = "rs ! r"
  let ?x = "sx + i" and ?y = "sy + j" and ?z = "sz + k"
  let ?v = "state g ! nat (?x + ?y * MX g + ?z * MX g * MY g)"
  from v have r: "r < length rs" and ib: "\<not> out_of_bounds g ?rule sx sy sz"
    and m: "grid_matches g ?rule sx sy sz"
    by (auto simp: valid_match_def)
  from r wf(2) have rw: "rule_wf g ?rule" by simp
  from ib b have cell: "0 \<le> ?x" "?x < MX g" "0 \<le> ?y" "?y < MY g" "0 \<le> ?z" "?z < MZ g"
    by (auto simp: out_of_bounds_def)
  note st = state_at_in_grid(2) [OF wf(1) cell]
  from m b have "(input ?rule ! nat (i + j * IMX ?rule + k * IMX ?rule * IMY ?rule))
          AND push_bit ?v 1 \<noteq> 0"
    unfolding grid_matches_iff by blast
  with b have "(i, j, k) \<in> set (ishifts ?rule ! ?v)"
    unfolding ishifts_set(2) [OF rw st] set_shifts_of by simp
  with ib m have "(r, sx, sy, sz) \<in> set (shift_entries g r ?rule ?x ?y ?z (ishifts ?rule ! ?v))"
    unfolding in_shift_entries by (intro exI [of _ i] exI [of _ j] exI [of _ k]) simp
  with r show ?thesis by (auto simp: triggered_def)
qed

lemma changed_cell_in_box:
  assumes sh: "same_shape g0 g"
    and v: "valid_match g rs (r, sx, sy, sz)" and nv: "\<not> valid_match g0 rs (r, sx, sy, sz)"
  shows "\<exists>i j k. 0 \<le> i \<and> i < IMX (rs ! r) \<and> 0 \<le> j \<and> j < IMY (rs ! r) \<and>
           0 \<le> k \<and> k < IMZ (rs ! r) \<and>
           state g ! nat ((sx + i) + (sy + j) * MX g + (sz + k) * MX g * MY g) \<noteq>
           state g0 ! nat ((sx + i) + (sy + j) * MX g + (sz + k) * MX g * MY g)"
proof -
  let ?rule = "rs ! r"
  from sh have d: "MX g0 = MX g" "MY g0 = MY g" "MZ g0 = MZ g" by (auto simp: same_shape_def)
  from v have r: "r < length rs" and ib: "\<not> out_of_bounds g ?rule sx sy sz"
    and m: "grid_matches g ?rule sx sy sz"
    by (auto simp: valid_match_def)
  from ib d have "\<not> out_of_bounds g0 ?rule sx sy sz" by (simp add: out_of_bounds_def)
  with nv r have "\<not> grid_matches g0 ?rule sx sy sz" by (simp add: valid_match_def)
  then obtain i j k where b: "0 \<le> i" "i < IMX ?rule" "0 \<le> j" "j < IMY ?rule" "0 \<le> k" "k < IMZ ?rule"
    and z: "(input ?rule ! nat (i + j * IMX ?rule + k * IMX ?rule * IMY ?rule))
          AND push_bit (state g0 ! nat ((sx + i) + (sy + j) * MX g + (sz + k) * MX g * MY g)) 1 = 0"
    unfolding grid_matches_iff d by blast
  from m b have "(input ?rule ! nat (i + j * IMX ?rule + k * IMX ?rule * IMY ?rule))
          AND push_bit (state g ! nat ((sx + i) + (sy + j) * MX g + (sz + k) * MX g * MY g)) 1 \<noteq> 0"
    unfolding grid_matches_iff by blast
  with z have "state g ! nat ((sx + i) + (sy + j) * MX g + (sz + k) * MX g * MY g) \<noteq>
           state g0 ! nat ((sx + i) + (sy + j) * MX g + (sz + k) * MX g * MY g)"
    by auto
  with b show ?thesis by blast
qed

lemma matcher_inv_node_c: "matcher_inv (grid_of [1, 1, 0]) node_c"
proof -
  have ml: "match_list node_c = [(0, 1, 0, 0)]" by code_simp
  show ?thesis
    using mask_inv_node_c
    by (simp add: matcher_inv_def ml buffer_ok_def in_grid_match_def)
      (simp add: node_c_def node0_def grid_of_def)
qed

text \<open>
  Claim C1, as amended. Let the node satisfy the invariant of its match store, let every
  cell edited since the earlier rescan be in \<^verbatim>\<open>changes[first[lastMatchedTurn] ..]\<close>, and let the
  list hold every match of the earlier grid that is still valid. Then the incremental
  rescan and the full rescan of the same grid both return, and the entries of the
  incremental list that are valid now are, as a multiset, the list of the full rescan;
  the two lists are equal as multisets when no listed match has become invalid.
\<close>

theorem incremental_equals_full_on_valid:
  fixes n :: "('o, 'p, 'g, 'a) node" and ip :: "'r interp"
  assumes wf: "grid_wf g" "\<forall>rule \<in> set (rules n). rule_wf g rule" "fits_buffer g (rules n)"
    and inv: "matcher_inv g n"
    and turn: "first_at ip (lastMatchedTurn n) = Some f"
    and cells: "list_all (in_grid g) (changes ip)"
    and g0: "grid_wf g0" "same_shape g0 g"
    and old: "listed_before g0 g n"
    and edits: "edits_logged g0 g (drop f (changes ip))"
  shows "\<exists>ni nf. refresh_matches g ip n = Some ni \<and>
           refresh_matches g ip (n\<lparr>lastMatchedTurn := - 1\<rparr>) = Some nf \<and>
           mset (filter (valid_match g (rules n)) (match_list ni)) = mset (match_list nf) \<and>
           (list_all (valid_match g (rules n)) (match_list n) \<longrightarrow>
              mset (match_list ni) = mset (match_list nf))"
proof -
  let ?rs = "rules n"
  from turn have t0: "0 \<le> lastMatchedTurn n" by (auto simp: first_at_def split: if_splits)
  from incremental_rescan_grows [OF wf inv cells] turn obtain ni where
    inc: "incremental_rescan g ip n = Some ni" and gr: "grows g n ni"
    and cov: "\<forall>c \<in> set (drop f (changes ip)). set (triggered g ?rs c) \<subseteq> set (match_list ni)"
    by blast
  from full_rescan_result [of g "n\<lparr>lastMatchedTurn := - 1\<rparr>"] wf obtain nf where
    full: "full_rescan g (n\<lparr>lastMatchedTurn := - 1\<rparr>) = Some nf"
    and mf: "match_list nf = full_entries g ?rs"
    by auto
  have ri: "refresh_matches g ip n = Some ni" using inc t0 by (simp add: refresh_matches_def)
  have rf: "refresh_matches g ip (n\<lparr>lastMatchedTurn := - 1\<rparr>) = Some nf"
    using full by (simp add: refresh_matches_def)
  note gs = grows_sel [OF gr]
  from gs(1) have di: "distinct (match_list ni)" by (simp add: matcher_inv_def)
  have rw0: "\<forall>rule \<in> set ?rs. rule_wf g0 rule"
    using wf(2) g0(2) by (simp add: rule_wf_def same_shape_def)
  have found: "t \<in> set (match_list ni)" if v: "valid_match g ?rs t" for t
  proof (cases "t \<in> set (match_list n)")
    case True
    with gs(3) show ?thesis by blast
  next
    case False
    obtain r sx sy sz where t: "t = (r, sx, sy, sz)" by (cases t)
    have "\<not> valid_match g0 ?rs t"
    proof
      assume "valid_match g0 ?rs t"
      then have "t \<in> set (full_entries g0 ?rs)" by (simp add: set_full_entries [OF g0(1) rw0])
      with old v have "t \<in> set (match_list n)"
        by (auto simp: listed_before_def list_all_iff)
      with False show False by simp
    qed
    from changed_cell_in_box [OF g0(2) v [unfolded t] this [unfolded t]] obtain i j k where
      b: "0 \<le> i" "i < IMX (?rs ! r)" "0 \<le> j" "j < IMY (?rs ! r)" "0 \<le> k" "k < IMZ (?rs ! r)"
      and ne: "state g ! nat ((sx + i) + (sy + j) * MX g + (sz + k) * MX g * MY g) \<noteq>
           state g0 ! nat ((sx + i) + (sy + j) * MX g + (sz + k) * MX g * MY g)"
      by blast
    from v b have "in_grid g (sx + i, sy + j, sz + k)"
      by (auto simp: t valid_match_def out_of_bounds_def in_grid_def)
    from edits_loggedD [OF edits this ne]
    have "(sx + i, sy + j, sz + k) \<in> set (drop f (changes ip))" .
    with cov have "set (triggered g ?rs (sx + i, sy + j, sz + k)) \<subseteq> set (match_list ni)"
      by blast
    with in_triggered [OF wf(1,2) v [unfolded t] b] show ?thesis by (auto simp: t)
  qed
  have s: "set (filter (valid_match g ?rs) (match_list ni)) = set (full_entries g ?rs)"
    using found by (auto simp: set_full_entries [OF wf(1,2)])
  have d1: "distinct (filter (valid_match g ?rs) (match_list ni))" using di by simp
  have d2: "distinct (full_entries g ?rs)" using wf(1,2) by (rule distinct_full_entries)
  have eq: "mset (filter (valid_match g ?rs) (match_list ni)) = mset (match_list nf)"
    unfolding mf using set_eq_iff_mset_eq_distinct [OF d1 d2] s by blast
  have "mset (match_list ni) = mset (match_list nf)"
    if "list_all (valid_match g ?rs) (match_list n)"
  proof -
    from gr obtain N where "match_list ni = match_list n @ N" "list_all (valid_match g ?rs) N"
      by (auto simp: grows_def)
    with that have "filter (valid_match g ?rs) (match_list ni) = match_list ni"
      by (auto simp: list_all_iff)
    with eq show ?thesis by (simp only:)
  qed
  with ri rf eq show ?thesis by blast
qed


text \<open>
  The node that lists the match at cell 2 of \<^verbatim>\<open>WWB\<close>, after cell 0 was set to \<^verbatim>\<open>B\<close>: the
  incremental rescan adds the match at cell 0.
\<close>

theorem incremental_equals_full_on_valid_witness:
  "grid_wf (grid_of [0, 1, 0]) \<and> list_all (rule_wf (grid_of [0, 1, 0])) (rules node_w) \<and>
   fits_buffer (grid_of [0, 1, 0]) (rules node_w) \<and> matcher_inv (grid_of [0, 1, 0]) node_w \<and>
   first_at ip_w (lastMatchedTurn node_w) = Some 0 \<and>
   list_all (in_grid (grid_of [0, 1, 0])) (changes ip_w) \<and>
   grid_wf (grid_of [1, 1, 0]) \<and> same_shape (grid_of [1, 1, 0]) (grid_of [0, 1, 0]) \<and>
   listed_before (grid_of [1, 1, 0]) (grid_of [0, 1, 0]) node_w \<and>
   edits_logged (grid_of [1, 1, 0]) (grid_of [0, 1, 0]) (drop 0 (changes ip_w)) \<and>
   list_all (valid_match (grid_of [0, 1, 0]) (rules node_w)) (match_list node_w) \<and>
   (\<exists>ni nf. refresh_matches (grid_of [0, 1, 0]) ip_w node_w = Some ni \<and>
      refresh_matches (grid_of [0, 1, 0]) ip_w (node_w\<lparr>lastMatchedTurn := - 1\<rparr>) = Some nf \<and>
      match_list ni = [(0, 2, 0, 0), (0, 0, 0, 0)] \<and>
      match_list nf = [(0, 0, 0, 0), (0, 2, 0, 0)] \<and>
      mset (match_list ni) = mset (match_list nf))"
proof -
  let ?g = "grid_of [0, 1, 0]" and ?h = "grid_of [1, 1, 0]"
  have g: "grid_wf ?g" by (simp add: grid_wf_def grid_of_def)
  have r: "list_all (rule_wf ?g) (rules node_w)" by code_simp
  have f: "fits_buffer ?g (rules node_w)"
    by (simp add: fits_buffer_def grid_of_def node_w_def node0_def)
  note i = matcher_inv_node_w
  have t: "first_at ip_w (lastMatchedTurn node_w) = Some 0" by code_simp
  have c: "list_all (in_grid ?g) (changes ip_w)" by code_simp
  have g0: "grid_wf ?h" by (simp add: grid_wf_def grid_of_def)
  have sh: "same_shape ?h ?g" by (simp add: same_shape_def grid_of_def)
  have o: "listed_before ?h ?g node_w" by code_simp
  have e: "edits_logged ?h ?g (drop 0 (changes ip_w))" by code_simp
  have v: "list_all (valid_match ?g (rules node_w)) (match_list node_w)" by code_simp
  from incremental_equals_full_on_valid [OF g r [unfolded list_all_iff] f i t c g0 sh o e] v
  obtain ni nf where ri: "refresh_matches ?g ip_w node_w = Some ni"
    and rf: "refresh_matches ?g ip_w (node_w\<lparr>lastMatchedTurn := - 1\<rparr>) = Some nf"
    and m: "mset (match_list ni) = mset (match_list nf)"
    by blast
  have "match_list (the (refresh_matches ?g ip_w node_w)) = [(0, 2, 0, 0), (0, 0, 0, 0)]"
    by code_simp
  then have li: "match_list ni = [(0, 2, 0, 0), (0, 0, 0, 0)]" unfolding ri by simp
  have "match_list (the (refresh_matches ?g ip_w (node_w\<lparr>lastMatchedTurn := - 1\<rparr>))) =
      [(0, 0, 0, 0), (0, 2, 0, 0)]"
    by code_simp
  then have lf: "match_list nf = [(0, 0, 0, 0), (0, 2, 0, 0)]" unfolding rf by simp
  from ri rf li lf m have
    "\<exists>ni nf. refresh_matches ?g ip_w node_w = Some ni \<and>
      refresh_matches ?g ip_w (node_w\<lparr>lastMatchedTurn := - 1\<rparr>) = Some nf \<and>
      match_list ni = [(0, 2, 0, 0), (0, 0, 0, 0)] \<and>
      match_list nf = [(0, 0, 0, 0), (0, 2, 0, 0)] \<and>
      mset (match_list ni) = mset (match_list nf)"
    by blast
  with g r f i t c g0 sh o e v show ?thesis by (intro conjI)
qed

text \<open>
  The claim as stated fails, because the incremental rescan only adds: on the grid \<^verbatim>\<open>WWB\<close>,
  reached from \<^verbatim>\<open>BBB\<close> by the logged edits of the cells 0 and 1, the node with the rule
  \<^verbatim>\<open>BB\<close> keeps its match at cell 1, which a full rescan does not find.
\<close>

theorem incremental_equals_full_counterexample:
  "matcher_inv (grid_of [1, 1, 0]) node_c \<and>
   edits_logged (grid_of [0, 0, 0]) (grid_of [1, 1, 0]) (changes ip_c) \<and>
   refresh_matches (grid_of [1, 1, 0]) ip_c node_c \<noteq> None \<and>
   refresh_matches (grid_of [1, 1, 0]) ip_c (node_c\<lparr>lastMatchedTurn := - 1\<rparr>) \<noteq> None \<and>
   match_list (the (refresh_matches (grid_of [1, 1, 0]) ip_c node_c)) = [(0, 1, 0, 0)] \<and>
   match_list (the (refresh_matches (grid_of [1, 1, 0]) ip_c (node_c\<lparr>lastMatchedTurn := - 1\<rparr>))) = [] \<and>
   mset (match_list (the (refresh_matches (grid_of [1, 1, 0]) ip_c node_c))) \<noteq>
   mset (match_list (the (refresh_matches (grid_of [1, 1, 0]) ip_c
           (node_c\<lparr>lastMatchedTurn := - 1\<rparr>))))"
proof -
  have e: "edits_logged (grid_of [0, 0, 0]) (grid_of [1, 1, 0]) (changes ip_c)" by code_simp
  have 1: "refresh_matches (grid_of [1, 1, 0]) ip_c node_c \<noteq> None" by code_simp
  have 2: "refresh_matches (grid_of [1, 1, 0]) ip_c (node_c\<lparr>lastMatchedTurn := - 1\<rparr>) \<noteq> None"
    by code_simp
  have 3: "match_list (the (refresh_matches (grid_of [1, 1, 0]) ip_c node_c)) = [(0, 1, 0, 0)]"
    by code_simp
  have 4: "match_list (the (refresh_matches (grid_of [1, 1, 0]) ip_c
      (node_c\<lparr>lastMatchedTurn := - 1\<rparr>))) = []"
    by code_simp
  have 5: "mset (match_list (the (refresh_matches (grid_of [1, 1, 0]) ip_c node_c))) \<noteq>
   mset (match_list (the (refresh_matches (grid_of [1, 1, 0]) ip_c
           (node_c\<lparr>lastMatchedTurn := - 1\<rparr>))))"
    unfolding 3 4 by simp
  from matcher_inv_node_c e 1 2 3 4 5 show ?thesis by (intro conjI)
qed

end
